theory Spec2Isabelle
  imports Main
begin

section \<open>JavaScript values used by the services\<close>

text \<open>
  \<^verbatim>\<open>String(n)\<close> and template interpolation of an integer: decimal digits, with a
  leading minus sign for a negative number. Numbers are modelled as integers.
\<close>

fun show_nat :: "nat \<Rightarrow> string" where
  "show_nat n =
     (if n < 10 then [char_of (48 + n)]
      else show_nat (n div 10) @ [char_of (48 + n mod 10)])"

declare show_nat.simps [simp del]

definition show_int :: "int \<Rightarrow> string" where
  "show_int i = (if i < 0 then CHR ''-'' # show_nat (nat (- i)) else show_nat (nat i))"

text \<open>\<^verbatim>\<open>s.padStart(2, '0')\<close>\<close>

definition padStart2 :: "string \<Rightarrow> string" where
  "padStart2 s = replicate (2 - length s) CHR ''0'' @ s"

text \<open>\<^verbatim>\<open>s.startsWith(p)\<close> and \<^verbatim>\<open>s.includes(p)\<close>\<close>

definition starts_with :: "string \<Rightarrow> string \<Rightarrow> bool" where
  "starts_with s p = (take (length p) s = p)"

fun str_includes :: "string \<Rightarrow> string \<Rightarrow> bool" where
  "str_includes [] p = (p = [])"
| "str_includes (c # cs) p = (starts_with (c # cs) p \<or> str_includes cs p)"

text \<open>
  JavaScript strings are modelled as \<^typ>\<open>string\<close>, one \<^typ>\<open>char\<close> per code unit
  below 256. On that range the regular-expression class \<^verbatim>\<open>\s\<close> (and the characters
  removed by \<^verbatim>\<open>trim\<close>) are tab, line feed, vertical tab, form feed, carriage return,
  space and the no-break space.
\<close>

definition is_space :: "char \<Rightarrow> bool" where
  "is_space c = (of_char c \<in> {9::nat, 10, 11, 12, 13, 32, 160})"

definition trim :: "string \<Rightarrow> string" where
  "trim s = rev (dropWhile is_space (rev (dropWhile is_space s)))"

text \<open>
  \<^verbatim>\<open>parseInt(s, 10)\<close>: leading white space, an optional sign, then the longest run
  of decimal digits; \<open>None\<close> (\<^verbatim>\<open>NaN\<close>) when there is no digit.
\<close>

definition is_digit :: "char \<Rightarrow> bool" where
  "is_digit c = (48 \<le> (of_char c :: nat) \<and> (of_char c :: nat) \<le> 57)"

definition digits_value :: "string \<Rightarrow> nat" where
  "digits_value ds = foldl (\<lambda>acc c. 10 * acc + (of_char c - 48)) 0 ds"

definition parseInt10 :: "string \<Rightarrow> int option" where
  "parseInt10 s =
     (let t = dropWhile is_space s;
          neg = (t \<noteq> [] \<and> hd t = CHR ''-'');
          u = (if t \<noteq> [] \<and> (hd t = CHR ''-'' \<or> hd t = CHR ''+'') then tl t else t);
          ds = takeWhile is_digit u
      in if ds = [] then None
         else Some (if neg then - int (digits_value ds) else int (digits_value ds)))"

section \<open>Word counter\<close>

text \<open>The character class \<^verbatim>\<open>[#*_`~\[\]()]\<close> of \<^verbatim>\<open>countWords\<close>.\<close>

definition markdown_syntax :: "char set" where
  "markdown_syntax = set ''#*_`~[]()''"

text \<open>
  \<^verbatim>\<open>text.split(/\s+/)\<close>: the pieces between maximal runs of white space; a run at
  the start or the end of the text leaves an empty first or last piece, and the empty text
  gives one empty piece.
\<close>

function split_ws_from :: "string \<Rightarrow> string \<Rightarrow> string list" where
  "split_ws_from cur [] = [rev cur]"
| "split_ws_from cur (c # cs) =
     (if is_space c then rev cur # split_ws_from [] (dropWhile is_space cs)
      else split_ws_from (c # cur) cs)"
  by pat_completeness auto
termination
  by (relation "measure (\<lambda>(cur, s). length s)")
     (auto simp: length_dropWhile_le less_Suc_eq_le)

definition split_ws :: "string \<Rightarrow> string list" where
  "split_ws s = split_ws_from [] s"

text \<open>
  \<^verbatim>\<open>text.replace(/[#*_`~\[\]()]/g, '').split(/\s+/).filter(word => word.length > 0).length\<close>
\<close>

definition countWords :: "string \<Rightarrow> nat" where
  "countWords text =
     length (filter (\<lambda>word. length word > 0)
       (split_ws (filter (\<lambda>c. c \<notin> markdown_syntax) text)))"

section \<open>Errors of the content source adapter\<close>

text \<open>
  What a \<^verbatim>\<open>catch\<close> clause can receive. The four classes of the adapter carry the
  fields their constructors set; \<open>SdkAPIError\<close> is the client library's
  \<^verbatim>\<open>OpenAI.APIError\<close> with its name, message, optional HTTP status and optional
  \<^verbatim>\<open>retry-after\<close> header; \<open>OtherError\<close> is any other \<^verbatim>\<open>Error\<close> with its name
  and message; \<open>NonError\<close> is a thrown value that is not an \<^verbatim>\<open>Error\<close>, with its
  \<^verbatim>\<open>String(value)\<close>. A number that is \<^verbatim>\<open>NaN\<close> is \<open>None\<close>.
\<close>

datatype thrown =
    OpenAIConfigError string
  | OpenAIRateLimitError string "int option"
  | OpenAIAPIError string int bool
  | OpenAITimeoutError string
  | SdkAPIError string string "int option" "string option"
  | OtherError string string
  | NonError string

fun is_Error :: "thrown \<Rightarrow> bool" where
  "is_Error (NonError v) = False"
| "is_Error e = True"

fun error_name :: "thrown \<Rightarrow> string" where
  "error_name (OpenAIConfigError m) = ''OpenAIConfigError''"
| "error_name (OpenAIRateLimitError m r) = ''OpenAIRateLimitError''"
| "error_name (OpenAIAPIError m c r) = ''OpenAIAPIError''"
| "error_name (OpenAITimeoutError m) = ''OpenAITimeoutError''"
| "error_name (SdkAPIError n m st h) = n"
| "error_name (OtherError n m) = n"
| "error_name (NonError v) = []"

fun error_message :: "thrown \<Rightarrow> string" where
  "error_message (OpenAIConfigError m) = m"
| "error_message (OpenAIRateLimitError m r) = m"
| "error_message (OpenAIAPIError m c r) = m"
| "error_message (OpenAITimeoutError m) = m"
| "error_message (SdkAPIError n m st h) = m"
| "error_message (OtherError n m) = m"
| "error_message (NonError v) = v"

record error_info =
  message :: string
  isRetryable :: bool
  errorCode :: string
  retryAfter :: "int option"

text \<open>
  \<^verbatim>\<open>categorizeError\<close>: the \<^verbatim>\<open>instanceof\<close> tests in the order of the source.
\<close>

fun categorizeError :: "thrown \<Rightarrow> error_info" where
  "categorizeError (OpenAIConfigError m) =
     \<lparr>message = m, isRetryable = False, errorCode = ''CONFIG_ERROR'', retryAfter = None\<rparr>"
| "categorizeError (OpenAIRateLimitError m r) =
     \<lparr>message = m, isRetryable = True, errorCode = ''RATE_LIMITED'', retryAfter = r\<rparr>"
| "categorizeError (OpenAITimeoutError m) =
     \<lparr>message = m, isRetryable = True, errorCode = ''TIMEOUT'', retryAfter = None\<rparr>"
| "categorizeError (OpenAIAPIError m c r) =
     \<lparr>message = m, isRetryable = r, errorCode = ''API_ERROR_'' @ show_int c,
      retryAfter = None\<rparr>"
| "categorizeError (SdkAPIError n m st h) =
     \<lparr>message = m,
      isRetryable = (st = Some 429 \<or> st = Some 500 \<or> st = Some 502 \<or> st = Some 503),
      errorCode = ''OPENAI_'' @ (case st of None \<Rightarrow> ''undefined'' | Some c \<Rightarrow> show_int c),
      retryAfter = (if st = Some 429 then Some 60 else None)\<rparr>"
| "categorizeError (OtherError n m) =
     (let isNetworkError =
            (str_includes m ''ECONNREFUSED'' \<or> str_includes m ''ETIMEDOUT'' \<or>
             str_includes m ''ENOTFOUND'' \<or> str_includes m ''fetch failed'')
      in \<lparr>message = m, isRetryable = isNetworkError,
          errorCode = (if isNetworkError then ''NETWORK_ERROR'' else ''UNKNOWN_ERROR''),
          retryAfter = None\<rparr>)"
| "categorizeError (NonError v) =
     \<lparr>message = ''An unknown error occurred'', isRetryable = False,
      errorCode = ''UNKNOWN_ERROR'', retryAfter = None\<rparr>"

text \<open>
  The \<^verbatim>\<open>catch\<close> clause of \<^verbatim>\<open>callOpenAI\<close> up to the call of
  \<^verbatim>\<open>categorizeError\<close>: a value that is not an \<^verbatim>\<open>Error\<close> is wrapped, an error
  named \<^verbatim>\<open>AbortError\<close> becomes a timeout error, and a library error with status 429
  becomes a rate-limit error (the later assignment wins when both tests hold).
\<close>

definition lastErrorOf :: "int \<Rightarrow> thrown \<Rightarrow> thrown" where
  "lastErrorOf timeout error =
     (let lastError1 =
            (if is_Error error then error else OtherError ''Error'' (error_message error));
          lastError2 =
            (if is_Error error \<and> error_name error = ''AbortError''
             then OpenAITimeoutError (''Request timed out after '' @ show_int timeout @ ''ms'')
             else lastError1)
      in case error of
           SdkAPIError n m st h \<Rightarrow>
             (if st = Some 429
              then OpenAIRateLimitError m
                     (parseInt10 (case h of None \<Rightarrow> ''60''
                                  | Some v \<Rightarrow> if v = [] then ''60'' else v))
              else lastError2)
         | _ \<Rightarrow> lastError2)"

section \<open>The completion service and the state of the process\<close>

text \<open>
  The completion service is outside the program. Its behaviour is a parameter of every
  operation: \<open>svc n\<close> is the outcome of the \<open>n\<close>-th call of
  \<^verbatim>\<open>chat.completions.create\<close> made by the process (counting from 0), either a
  rejection with the rejecting value or a response with the content of its first choice
  (\<open>None\<close> when the choice, its message or its content is missing).
\<close>

datatype reply = Throws thrown | Answers "string option"

text \<open>Who made a call: \<^verbatim>\<open>callOpenAI\<close> or \<^verbatim>\<open>expandContent\<close>.\<close>

datatype call = Completion | Expansion

datatype status = Pending | Generating | Completed | Failed

datatype step = ContentStep | PodcastStep

text \<open>Rows of the tables \<^verbatim>\<open>topics\<close> and \<^verbatim>\<open>lessons\<close> (time stamps left out).\<close>

record topic =
  topic_id :: nat
  topic_title :: string
  slug :: string
  topic_description :: "string option"
  lesson_count :: nat
  topic_status :: status
  topic_last_error :: "string option"

record lesson =
  lesson_id :: nat
  of_topic :: nat
  lesson_number :: int
  lesson_title :: string
  lesson_description :: "string option"
  file_path :: "string option"
  podcast_file_path :: "string option"
  word_count :: nat
  podcast_word_count :: nat
  lesson_status :: status
  retry_count :: "nat option"
  lesson_last_error :: "string option"

text \<open>The invocations of the optional \<^verbatim>\<open>GenerationProgressCallback\<close> members.\<close>

datatype progress =
    BreakdownStart
  | BreakdownComplete nat
  | LessonStart int string step
  | LessonContentComplete int nat
  | LessonPodcastComplete int nat
  | LessonComplete int
  | LessonError int step string bool
  | GenerationComplete nat
  | GenerationError string bool

text \<open>
  The state the services read and write: the environment variable
  \<^verbatim>\<open>OPENAI_API_KEY\<close>, whether the lazily created client exists, the names in the
  \<^verbatim>\<open>prompts\<close> table, the calls made to the completion service so far, the two
  tables with the next \<^verbatim>\<open>AUTOINCREMENT\<close> id of \<^verbatim>\<open>lessons\<close>, the files under
  the content directory (path relative to it, newest write first) and the callbacks
  invoked so far.
\<close>

record world =
  env_api_key :: "string option"
  openaiClient :: bool
  prompt_names :: "string list"
  trace :: "call list"
  topics :: "topic list"
  lessons :: "lesson list"
  lesson_seq :: nat
  files :: "(string \<times> string) list"
  progress_log :: "progress list"

definition expansions :: "world \<Rightarrow> nat" where
  "expansions w = length (filter (\<lambda>c. c = Expansion) (trace w))"

definition completions :: "world \<Rightarrow> nat" where
  "completions w = length (filter (\<lambda>c. c = Completion) (trace w))"

definition notify :: "progress \<Rightarrow> world \<Rightarrow> world" where
  "notify ev w = w\<lparr>progress_log := progress_log w @ [ev]\<rparr>"

section \<open>Content source adapter\<close>

text \<open>\<^verbatim>\<open>isApiKeyConfigured\<close>\<close>

definition isApiKeyConfigured :: "world \<Rightarrow> bool" where
  "isApiKeyConfigured w =
     (case env_api_key w of None \<Rightarrow> False
      | Some k \<Rightarrow> k \<noteq> [] \<and> k \<noteq> ''your-api-key-here'')"

text \<open>\<^verbatim>\<open>getOpenAIClient\<close>: the client is created on first use, when the key is set.\<close>

definition getOpenAIClient :: "world \<Rightarrow> thrown + world" where
  "getOpenAIClient w =
     (if openaiClient w then Inr w
      else if env_api_key w = None \<or> env_api_key w = Some []
      then Inl (OpenAIConfigError ''OPENAI_API_KEY environment variable is not set'')
      else Inr (w\<lparr>openaiClient := True\<rparr>))"

text \<open>
  The body of the \<^verbatim>\<open>try\<close> block of one attempt of \<^verbatim>\<open>callOpenAI\<close>: get the
  client, call the service, and reject a response without content. A timeout is the
  service call rejecting with an error named \<^verbatim>\<open>AbortError\<close>.
\<close>

definition attempt_call :: "(nat \<Rightarrow> reply) \<Rightarrow> world \<Rightarrow> (thrown + string) \<times> world" where
  "attempt_call svc w =
     (case getOpenAIClient w of
        Inl e \<Rightarrow> (Inl e, w)
      | Inr w1 \<Rightarrow>
          (let w2 = w1\<lparr>trace := trace w1 @ [Completion]\<rparr> in
           case svc (length (trace w1)) of
             Throws e \<Rightarrow> (Inl e, w2)
           | Answers None \<Rightarrow> (Inl (OpenAIAPIError ''No content in OpenAI response'' 500 True), w2)
           | Answers (Some content) \<Rightarrow>
               (if content = []
                then (Inl (OpenAIAPIError ''No content in OpenAI response'' 500 True), w2)
                else (Inr content, w2))))"

text \<open>
  The retry loop of \<^verbatim>\<open>callOpenAI\<close>,
  \<^verbatim>\<open>for (let attempt = 0; attempt <= maxRetries; attempt++)\<close>. Waiting between attempts
  takes time only and is not modelled; no caller passes the \<^verbatim>\<open>onRetry\<close> observer.
\<close>

function callOpenAI_loop ::
  "(nat \<Rightarrow> reply) \<Rightarrow> int \<Rightarrow> int \<Rightarrow> int \<Rightarrow> thrown option \<Rightarrow> world \<Rightarrow> (thrown + string) \<times> world"
where
  "callOpenAI_loop svc timeout maxRetries attempt lastError w =
     (if attempt \<le> maxRetries then
        (case attempt_call svc w of
           (Inr content, w') \<Rightarrow> (Inr content, w')
         | (Inl error, w') \<Rightarrow>
             (if \<not> isRetryable (categorizeError (lastErrorOf timeout error)) \<or> attempt \<ge> maxRetries
              then (Inl (lastErrorOf timeout error), w')
              else callOpenAI_loop svc timeout maxRetries (attempt + 1)
                     (Some (lastErrorOf timeout error)) w'))
      else (Inl (case lastError of Some e \<Rightarrow> e
                 | None \<Rightarrow> OtherError ''Error'' ''Unknown error in callOpenAI''), w))"
  by pat_completeness auto
termination
  by (relation "measure (\<lambda>(svc, timeout, maxRetries, attempt, lastError, w).
        nat (maxRetries + 1 - attempt))") auto

declare callOpenAI_loop.simps [simp del]

text \<open>
  The members of \<^verbatim>\<open>OpenAICallOptions\<close> that decide the control flow, with their
  defaults; the token budget, the temperature and the JSON mode go to the service only.
\<close>

record call_options =
  opt_maxRetries :: "int option"
  opt_timeout :: "int option"

definition default_options :: call_options where
  "default_options = \<lparr>opt_maxRetries = None, opt_timeout = None\<rparr>"

definition the_timeout :: "call_options \<Rightarrow> int" where
  "the_timeout options = (case opt_timeout options of None \<Rightarrow> 120000 | Some t \<Rightarrow> t)"

definition the_maxRetries :: "call_options \<Rightarrow> int" where
  "the_maxRetries options = (case opt_maxRetries options of None \<Rightarrow> 3 | Some r \<Rightarrow> r)"

definition callOpenAI ::
  "(nat \<Rightarrow> reply) \<Rightarrow> string \<Rightarrow> call_options \<Rightarrow> world \<Rightarrow> (thrown + string) \<times> world"
where
  "callOpenAI svc promptName options w =
     (if promptName \<notin> set (prompt_names w)
      then (Inl (OpenAIConfigError
                  (''Prompt template '' @ [CHR 0x22] @ promptName @ [CHR 0x22] @ '' not found'')), w)
      else callOpenAI_loop svc (the_timeout options) (the_maxRetries options) 0 None w)"

text \<open>
  For stating the retry policy: the value an attempt throws when the service gives
  reply \<open>r\<close> (\<open>None\<close> when the attempt returns the content), whether the loop
  classifies that failure as retryable, and whether a client can be obtained.
\<close>

definition reply_failure :: "reply \<Rightarrow> thrown option" where
  "reply_failure r =
     (case r of
        Throws e \<Rightarrow> Some e
      | Answers None \<Rightarrow> Some (OpenAIAPIError ''No content in OpenAI response'' 500 True)
      | Answers (Some content) \<Rightarrow>
          (if content = [] then Some (OpenAIAPIError ''No content in OpenAI response'' 500 True)
           else None))"

definition retryable_failure :: "int \<Rightarrow> reply \<Rightarrow> bool" where
  "retryable_failure t r =
     (case reply_failure r of None \<Rightarrow> False
      | Some e \<Rightarrow> isRetryable (categorizeError (lastErrorOf t e)))"

definition client_ready :: "world \<Rightarrow> bool" where
  "client_ready w = (openaiClient w \<or> (env_api_key w \<noteq> None \<and> env_api_key w \<noteq> Some []))"

definition after_calls :: "nat \<Rightarrow> world \<Rightarrow> world" where
  "after_calls n w = w\<lparr>openaiClient := True, trace := trace w @ replicate n Completion\<rparr>"

text \<open>A state for examples: the key is set and every prompt is present.\<close>

definition example_world :: world where
  "example_world =
     \<lparr>env_api_key = Some ''sk-example'', openaiClient = False,
      prompt_names = [''topic_breakdown'', ''lesson_content'', ''podcast_summary''],
      trace = [], topics = [], lessons = [], lesson_seq = 1, files = [],
      progress_log = []\<rparr>"

section \<open>JSON responses\<close>

text \<open>
  A parsed JSON value. Reading a property of \<^verbatim>\<open>null\<close> throws a
  \<^verbatim>\<open>TypeError\<close>; an object gives the value of the last member with that key, or
  \<^verbatim>\<open>undefined\<close> (\<open>None\<close>); the property names the services read are undefined on
  every other value.
\<close>

datatype json =
    JNull
  | JBool bool
  | JNum int
  | JStr string
  | JArr "json list"
  | JObj "(string \<times> json) list"

fun get_prop :: "json \<Rightarrow> string \<Rightarrow> thrown + json option" where
  "get_prop JNull k =
     Inl (OtherError ''TypeError''
            (''Cannot read properties of null (reading '' @ [CHR 0x27] @ k @ [CHR 0x27] @ '')''))"
| "get_prop (JObj kvs) k = Inr (map_of (rev kvs) k)"
| "get_prop v k = Inr None"

text \<open>
  The match of \<^verbatim>\<open>/```(?:json)?\s*([\s\S]*?)```/\<close> in a response. \<open>find_fence\<close>
  splits a text at its first run of three back quotes. The expression matches at the
  first such run that has another one after the optional word \<^verbatim>\<open>json\<close> and the
  white space following it; the group is the text in between, up to the first closing
  run.
\<close>

fun find_fence :: "string \<Rightarrow> (string \<times> string) option" where
  "find_fence [] = None"
| "find_fence (c # cs) =
     (if starts_with (c # cs) ''```'' then Some ([], drop 3 (c # cs))
      else (case find_fence cs of None \<Rightarrow> None
            | Some (before, rest) \<Rightarrow> Some (c # before, rest)))"

definition fence_match :: "string \<Rightarrow> string option" where
  "fence_match response =
     (case find_fence response of
        None \<Rightarrow> None
      | Some (before, rest) \<Rightarrow>
          (case find_fence
                  (dropWhile is_space (if starts_with rest ''json'' then drop 4 rest else rest)) of
             None \<Rightarrow> None
           | Some (body, rest') \<Rightarrow> Some body))"

definition jsonStr :: "string \<Rightarrow> string" where
  "jsonStr response =
     (case fence_match response of Some body \<Rightarrow> trim body | None \<Rightarrow> trim response)"

text \<open>
  \<^verbatim>\<open>parseJsonResponse\<close>. \<^verbatim>\<open>JSON.parse\<close> belongs to the platform and is a
  parameter: \<open>parse s\<close> is the parsed value, or \<open>None\<close> when \<^verbatim>\<open>JSON.parse\<close> throws.
\<close>

definition parseJsonResponse :: "(string \<Rightarrow> json option) \<Rightarrow> string \<Rightarrow> thrown + json" where
  "parseJsonResponse parse response =
     (case parse (jsonStr response) of
        Some v \<Rightarrow> Inr v
      | None \<Rightarrow> Inl (OpenAIAPIError ''Failed to parse JSON response from OpenAI'' 500 False))"

text \<open>A response wrapped in a markdown fence.\<close>

definition fenced :: "string \<Rightarrow> string" where
  "fenced payload = ''```json'' @ [CHR 0x0A] @ payload @ [CHR 0x0A] @ ''```''"

subsection \<open>A parser for examples\<close>

text \<open>
  For concrete examples, a parser of the JSON grammar with integer numbers and without
  \<^verbatim>\<open>\u\<close> escapes (a text outside this fragment is rejected). The first argument of
  the mutually recursive functions bounds the depth of the recursion; it is set to more
  than the length of the text.
\<close>

definition json_ws :: "char \<Rightarrow> bool" where
  "json_ws c = (of_char c \<in> {9::nat, 10, 13, 32})"

definition unescape :: "char \<Rightarrow> char option" where
  "unescape c =
     (if c = CHR 0x22 \<or> c = CHR 0x5C \<or> c = CHR ''/'' then Some c
      else if c = CHR ''b'' then Some (CHR 0x08)
      else if c = CHR ''f'' then Some (CHR 0x0C)
      else if c = CHR ''n'' then Some (CHR 0x0A)
      else if c = CHR ''r'' then Some (CHR 0x0D)
      else if c = CHR ''t'' then Some (CHR 0x09)
      else None)"

fun parse_string :: "string \<Rightarrow> string \<Rightarrow> (string \<times> string) option" where
  "parse_string acc [] = None"
| "parse_string acc [c] = (if c = CHR 0x22 then Some (rev acc, []) else None)"
| "parse_string acc (c # d # ds) =
     (if c = CHR 0x22 then Some (rev acc, d # ds)
      else if c = CHR 0x5C then
        (case unescape d of None \<Rightarrow> None | Some u \<Rightarrow> parse_string (u # acc) ds)
      else if (of_char c :: nat) < 32 then None
      else parse_string (c # acc) (d # ds))"

definition parse_number :: "string \<Rightarrow> (json \<times> string) option" where
  "parse_number s =
     (let neg = (s \<noteq> [] \<and> hd s = CHR ''-'');
          u = (if neg then tl s else s);
          ds = takeWhile is_digit u;
          rest = dropWhile is_digit u
      in if ds = [] \<or> (length ds > 1 \<and> hd ds = CHR ''0'') then None
         else if rest \<noteq> [] \<and> hd rest \<in> set ''.eE'' then None
         else Some (JNum (if neg then - int (digits_value ds) else int (digits_value ds)), rest))"

fun parse_value :: "nat \<Rightarrow> string \<Rightarrow> (json \<times> string) option"
  and parse_elements :: "nat \<Rightarrow> json list \<Rightarrow> string \<Rightarrow> (json \<times> string) option"
  and parse_members :: "nat \<Rightarrow> (string \<times> json) list \<Rightarrow> string \<Rightarrow> (json \<times> string) option"
where
  "parse_value 0 s = None"
| "parse_value (Suc n) s =
     (case dropWhile json_ws s of
        [] \<Rightarrow> None
      | c # cs \<Rightarrow>
          if c = CHR ''{'' then
            (case dropWhile json_ws cs of
               [] \<Rightarrow> None
             | d # ds \<Rightarrow> if d = CHR ''}'' then Some (JObj [], ds) else parse_members n [] cs)
          else if c = CHR ''['' then
            (case dropWhile json_ws cs of
               [] \<Rightarrow> None
             | d # ds \<Rightarrow> if d = CHR '']'' then Some (JArr [], ds) else parse_elements n [] cs)
          else if c = CHR 0x22 then
            (case parse_string [] cs of None \<Rightarrow> None | Some (str, rest) \<Rightarrow> Some (JStr str, rest))
          else if starts_with (c # cs) ''null'' then Some (JNull, drop 4 (c # cs))
          else if starts_with (c # cs) ''true'' then Some (JBool True, drop 4 (c # cs))
          else if starts_with (c # cs) ''false'' then Some (JBool False, drop 5 (c # cs))
          else parse_number (c # cs))"
| "parse_elements 0 acc s = None"
| "parse_elements (Suc n) acc s =
     (case parse_value n s of
        None \<Rightarrow> None
      | Some (v, rest) \<Rightarrow>
          (case dropWhile json_ws rest of
             [] \<Rightarrow> None
           | c # cs \<Rightarrow>
               if c = CHR '','' then parse_elements n (v # acc) cs
               else if c = CHR '']'' then Some (JArr (rev (v # acc)), cs)
               else None))"
| "parse_members 0 acc s = None"
| "parse_members (Suc n) acc s =
     (case dropWhile json_ws s of
        [] \<Rightarrow> None
      | q # qs \<Rightarrow>
          if q \<noteq> CHR 0x22 then None
          else
            (case parse_string [] qs of
               None \<Rightarrow> None
             | Some (k, rest) \<Rightarrow>
                 (case dropWhile json_ws rest of
                    [] \<Rightarrow> None
                  | c # cs \<Rightarrow>
                      if c \<noteq> CHR '':'' then None
                      else
                        (case parse_value n cs of
                           None \<Rightarrow> None
                         | Some (v, rest') \<Rightarrow>
                             (case dropWhile json_ws rest' of
                                [] \<Rightarrow> None
                              | d # ds \<Rightarrow>
                                  if d = CHR '','' then parse_members n ((k, v) # acc) ds
                                  else if d = CHR ''}'' then Some (JObj (rev ((k, v) # acc)), ds)
                                  else None)))))"

definition JSON_parse :: "string \<Rightarrow> json option" where
  "JSON_parse s =
     (case parse_value (Suc (length s)) s of
        None \<Rightarrow> None
      | Some (v, rest) \<Rightarrow> if dropWhile json_ws rest = [] then Some v else None)"

section \<open>Job pipeline\<close>

subsection \<open>Database access\<close>

text \<open>\<^verbatim>\<open>MAX_LESSON_RETRIES\<close>\<close>

definition MAX_LESSON_RETRIES :: nat where
  "MAX_LESSON_RETRIES = 3"

text \<open>\<^verbatim>\<open>SELECT * FROM topics WHERE id = ?\<close>\<close>

definition find_topic :: "nat \<Rightarrow> world \<Rightarrow> topic option" where
  "find_topic topicId w = find (\<lambda>t. topic_id t = topicId) (topics w)"

text \<open>\<^verbatim>\<open>SELECT * FROM lessons WHERE topic_id = ? ORDER BY lesson_number\<close>\<close>

definition select_lessons :: "nat \<Rightarrow> world \<Rightarrow> lesson list" where
  "select_lessons topicId w =
     sort_key lesson_number (filter (\<lambda>l. of_topic l = topicId) (lessons w))"

text \<open>\<^verbatim>\<open>UPDATE topics SET ... WHERE id = ?\<close> and \<^verbatim>\<open>UPDATE lessons SET ... WHERE ...\<close>\<close>

definition update_topic :: "nat \<Rightarrow> (topic \<Rightarrow> topic) \<Rightarrow> world \<Rightarrow> world" where
  "update_topic topicId f w =
     w\<lparr>topics := map (\<lambda>t. if topic_id t = topicId then f t else t) (topics w)\<rparr>"

definition update_lessons :: "(lesson \<Rightarrow> bool) \<Rightarrow> (lesson \<Rightarrow> lesson) \<Rightarrow> world \<Rightarrow> world" where
  "update_lessons sel f w = w\<lparr>lessons := map (\<lambda>l. if sel l then f l else l) (lessons w)\<rparr>"

definition update_lesson :: "nat \<Rightarrow> (lesson \<Rightarrow> lesson) \<Rightarrow> world \<Rightarrow> world" where
  "update_lesson lessonId f w = update_lessons (\<lambda>l. lesson_id l = lessonId) f w"

text \<open>\<^verbatim>\<open>fs.writeFileSync(path.join(topicDir, fileName), content)\<close>\<close>

definition writeFile :: "string \<Rightarrow> string \<Rightarrow> world \<Rightarrow> world" where
  "writeFile path content w = w\<lparr>files := (path, content) # files w\<rparr>"

definition readFile :: "world \<Rightarrow> string \<Rightarrow> string option" where
  "readFile w path = map_of (files w) path"

subsection \<open>Topic breakdown\<close>

text \<open>
  What the database driver does with a value bound to a statement: a string, a number
  or \<^verbatim>\<open>null\<close> is stored (\<^verbatim>\<open>null\<close> violates \<^verbatim>\<open>NOT NULL\<close>), and any other
  value, \<^verbatim>\<open>undefined\<close> included, makes the statement throw. The columns of the model
  are typed, so a value of the wrong type for its column makes the statement throw too.
\<close>

definition bind_error :: thrown where
  "bind_error =
     OtherError ''TypeError''
       ''SQLite3 can only bind numbers, strings, bigints, buffers, and null''"

fun bind_text :: "json option \<Rightarrow> thrown + string option" where
  "bind_text (Some (JStr s)) = Inr (Some s)"
| "bind_text (Some (JNum n)) = Inr (Some (show_int n))"
| "bind_text (Some JNull) = Inr None"
| "bind_text v = Inl bind_error"

fun bind_integer :: "json option \<Rightarrow> thrown + int option" where
  "bind_integer (Some (JNum n)) = Inr (Some n)"
| "bind_integer (Some JNull) = Inr None"
| "bind_integer v = Inl bind_error"

definition not_null :: "string \<Rightarrow> thrown" where
  "not_null column = OtherError ''SqliteError'' (''NOT NULL constraint failed: '' @ column)"

text \<open>
  One turn of \<^verbatim>\<open>for (const lesson of breakdown.lessons)\<close>: read the three properties
  and run the \<^verbatim>\<open>INSERT\<close>, which gives the row the next id, status
  \<^verbatim>\<open>pending\<close> and retry counter 0.
\<close>

definition insertLesson :: "nat \<Rightarrow> json \<Rightarrow> world \<Rightarrow> thrown + world" where
  "insertLesson topicId item w =
     (case get_prop item ''number'' of Inl e \<Rightarrow> Inl e | Inr number \<Rightarrow>
      case get_prop item ''title'' of Inl e \<Rightarrow> Inl e | Inr title \<Rightarrow>
      case get_prop item ''description'' of Inl e \<Rightarrow> Inl e | Inr description \<Rightarrow>
      case bind_integer number of Inl e \<Rightarrow> Inl e | Inr n \<Rightarrow>
      case bind_text title of Inl e \<Rightarrow> Inl e | Inr t \<Rightarrow>
      case bind_text description of Inl e \<Rightarrow> Inl e | Inr d \<Rightarrow>
      case n of None \<Rightarrow> Inl (not_null ''lessons.lesson_number'') | Some n' \<Rightarrow>
      case t of None \<Rightarrow> Inl (not_null ''lessons.title'') | Some t' \<Rightarrow>
        Inr (w\<lparr>lessons := lessons w @
                 [\<lparr>lesson_id = lesson_seq w, of_topic = topicId, lesson_number = n',
                   lesson_title = t', lesson_description = d, file_path = None,
                   podcast_file_path = None, word_count = 0, podcast_word_count = 0,
                   lesson_status = Pending, retry_count = Some 0,
                   lesson_last_error = None\<rparr>],
               lesson_seq := Suc (lesson_seq w)\<rparr>))"

fun insertLessons :: "nat \<Rightarrow> json list \<Rightarrow> world \<Rightarrow> thrown + world" where
  "insertLessons topicId [] w = Inr w"
| "insertLessons topicId (item # items) w =
     (case insertLesson topicId item w of
        Inl e \<Rightarrow> Inl e
      | Inr w' \<Rightarrow> insertLessons topicId items w')"

text \<open>
  The \<^verbatim>\<open>try\<close> block of \<^verbatim>\<open>breakdownTopic\<close>. A statement that throws leaves the rows
  written before it in place (there is no transaction), so the state at the throw is
  returned with the error.
\<close>

fun insertLessons_state :: "nat \<Rightarrow> json list \<Rightarrow> world \<Rightarrow> world" where
  "insertLessons_state topicId [] w = w"
| "insertLessons_state topicId (item # items) w =
     (case insertLesson topicId item w of
        Inl e \<Rightarrow> w
      | Inr w' \<Rightarrow> insertLessons_state topicId items w')"

definition breakdown_try ::
  "(string \<Rightarrow> json option) \<Rightarrow> (nat \<Rightarrow> reply) \<Rightarrow> nat \<Rightarrow> world \<Rightarrow> (thrown + json) \<times> world"
where
  "breakdown_try parse svc topicId w =
     (case callOpenAI svc ''topic_breakdown'' default_options w of
        (Inl e, w1) \<Rightarrow> (Inl e, w1)
      | (Inr response, w1) \<Rightarrow>
          (case parseJsonResponse parse response of
             Inl e \<Rightarrow> (Inl e, w1)
           | Inr breakdown \<Rightarrow>
               (case get_prop breakdown ''lessons'' of
                  Inl e \<Rightarrow> (Inl e, w1)
                | Inr (Some (JArr items)) \<Rightarrow>
                    (case get_prop breakdown ''topic_description'' of
                       Inl e \<Rightarrow> (Inl e, w1)
                     | Inr description \<Rightarrow>
                         (case bind_text description of
                            Inl e \<Rightarrow> (Inl e, w1)
                          | Inr d \<Rightarrow>
                              (let w2 = update_topic topicId
                                     (\<lambda>t. t\<lparr>topic_description := d,
                                            lesson_count := length items\<rparr>) w1
                               in case insertLessons topicId items w2 of
                                    Inl e \<Rightarrow> (Inl e, insertLessons_state topicId items w2)
                                  | Inr w3 \<Rightarrow>
                                      (Inr breakdown,
                                       notify (BreakdownComplete (length items)) w3))))
                | Inr other \<Rightarrow>
                    (Inl (OtherError ''Error'' ''Invalid response: missing lessons array''),
                     w1))))"

text \<open>
  The state in which the \<^verbatim>\<open>try\<close> block of \<^verbatim>\<open>breakdownTopic\<close> starts: the topic
  is marked \<^verbatim>\<open>generating\<close> and the start is reported.
\<close>

definition breakdown_started :: "nat \<Rightarrow> world \<Rightarrow> world" where
  "breakdown_started topicId w =
     notify BreakdownStart
       (update_topic topicId
         (\<lambda>t. t\<lparr>topic_status := Generating, topic_last_error := None\<rparr>) w)"

text \<open>\<^verbatim>\<open>breakdownTopic\<close>\<close>

definition breakdownTopic ::
  "(string \<Rightarrow> json option) \<Rightarrow> (nat \<Rightarrow> reply) \<Rightarrow> nat \<Rightarrow> world \<Rightarrow> (thrown + json) \<times> world"
where
  "breakdownTopic parse svc topicId w =
     (case find_topic topicId w of
        None \<Rightarrow> (Inl (OtherError ''Error'' ''Topic not found''), w)
      | Some topic \<Rightarrow>
          if \<not> isApiKeyConfigured w
          then (Inl (OtherError ''Error''
                  ''OpenAI API key is not configured. Please add it to your .env file.''), w)
          else
            (case breakdown_try parse svc topicId (breakdown_started topicId w) of
               (Inr breakdown, w') \<Rightarrow> (Inr breakdown, w')
             | (Inl error, w') \<Rightarrow>
                 (Inl error,
                  notify (GenerationError (message (categorizeError error))
                            (isRetryable (categorizeError error)))
                    (update_topic topicId
                      (\<lambda>t. t\<lparr>topic_status := Failed,
                             topic_last_error := Some (message (categorizeError error))\<rparr>)
                      w'))))"

subsection \<open>Word-count gate\<close>

text \<open>
  \<^verbatim>\<open>expandContent\<close>: one call of the service with its own client and no retry; an
  empty or missing content gives the existing content back. The word counts and the
  context arguments only shape the prompt.
\<close>

definition expandContent :: "(nat \<Rightarrow> reply) \<Rightarrow> string \<Rightarrow> world \<Rightarrow> (thrown + string) \<times> world" where
  "expandContent svc existingContent w =
     (let w' = w\<lparr>trace := trace w @ [Expansion]\<rparr> in
      case svc (length (trace w)) of
        Throws e \<Rightarrow> (Inl e, w')
      | Answers None \<Rightarrow> (Inr existingContent, w')
      | Answers (Some content) \<Rightarrow>
          (Inr (if content = [] then existingContent else content), w'))"

text \<open>
  The expansion loop \<^verbatim>\<open>for (let attempt = 1; attempt <= maxRetries; attempt++)\<close> of
  \<^verbatim>\<open>generateLessonContent\<close> and of \<^verbatim>\<open>generatePodcastSummary\<close>, with the statements
  after it: both functions return the content and its count whether or not the count
  exceeds the maximum.
\<close>

function expand_loop ::
  "(nat \<Rightarrow> reply) \<Rightarrow> nat \<Rightarrow> nat \<Rightarrow> nat \<Rightarrow> string \<Rightarrow> nat \<Rightarrow> world
     \<Rightarrow> (thrown + string \<times> nat) \<times> world"
where
  "expand_loop svc minWords maxRetries attempt content wordCount w =
     (if attempt \<le> maxRetries then
        (case expandContent svc content w of
           (Inl e, w') \<Rightarrow> (Inl e, w')
         | (Inr content', w') \<Rightarrow>
             (if countWords content' \<ge> minWords then (Inr (content', countWords content'), w')
              else expand_loop svc minWords maxRetries (attempt + 1) content'
                     (countWords content') w'))
      else (Inr (content, wordCount), w))"
  by pat_completeness auto
termination
  by (relation "measure (\<lambda>(svc, minWords, maxRetries, attempt, content, wordCount, w).
        maxRetries + 1 - attempt)") auto

declare expand_loop.simps [simp del]

definition generate_in_band ::
  "(nat \<Rightarrow> reply) \<Rightarrow> string \<Rightarrow> nat \<Rightarrow> nat \<Rightarrow> nat \<Rightarrow> world \<Rightarrow> (thrown + string \<times> nat) \<times> world"
where
  "generate_in_band svc promptName minWords maxWords maxRetries w =
     (case callOpenAI svc promptName default_options w of
        (Inl e, w1) \<Rightarrow> (Inl e, w1)
      | (Inr content, w1) \<Rightarrow>
          (if countWords content \<ge> minWords \<and> countWords content \<le> maxWords
           then (Inr (content, countWords content), w1)
           else if countWords content < minWords
           then expand_loop svc minWords maxRetries 1 content (countWords content) w1
           else (Inr (content, countWords content), w1)))"

text \<open>
  \<^verbatim>\<open>generateLessonContent\<close> and \<^verbatim>\<open>generatePodcastSummary\<close> have the same body up to
  the prompt name and the band. Their callers leave \<^verbatim>\<open>maxRetries\<close> at its default 2.
\<close>

definition generateLessonContent ::
  "(nat \<Rightarrow> reply) \<Rightarrow> nat \<Rightarrow> world \<Rightarrow> (thrown + string \<times> nat) \<times> world"
where
  "generateLessonContent svc maxRetries w =
     generate_in_band svc ''lesson_content'' 2700 3300 maxRetries w"

definition generatePodcastSummary ::
  "(nat \<Rightarrow> reply) \<Rightarrow> nat \<Rightarrow> world \<Rightarrow> (thrown + string \<times> nat) \<times> world"
where
  "generatePodcastSummary svc maxRetries w =
     generate_in_band svc ''podcast_summary'' 1000 1200 maxRetries w"

subsection \<open>Generating one lesson\<close>

definition lesson_file :: "topic \<Rightarrow> lesson \<Rightarrow> string" where
  "lesson_file topic lesson =
     slug topic @ ''/'' @ ''lesson-'' @ padStart2 (show_int (lesson_number lesson)) @ ''.md''"

definition podcast_file :: "topic \<Rightarrow> lesson \<Rightarrow> string" where
  "podcast_file topic lesson =
     slug topic @ ''/'' @ ''lesson-'' @ padStart2 (show_int (lesson_number lesson))
       @ ''-podcast.md''"

text \<open>\<^verbatim>\<open>lesson.retry_count || 0\<close>\<close>

definition retries :: "lesson \<Rightarrow> nat" where
  "retries lesson = (case retry_count lesson of None \<Rightarrow> 0 | Some n \<Rightarrow> n)"

text \<open>The \<^verbatim>\<open>catch\<close> clause of \<^verbatim>\<open>generateSingleLesson\<close>.\<close>

definition lesson_failed :: "lesson \<Rightarrow> thrown \<Rightarrow> world \<Rightarrow> bool \<times> world" where
  "lesson_failed lesson error w =
     (False,
      notify (LessonError (lesson_number lesson)
                (if file_path lesson \<noteq> None \<and> file_path lesson \<noteq> Some [] then PodcastStep
                 else ContentStep)
                (message (categorizeError error)) (isRetryable (categorizeError error)))
        (update_lesson (lesson_id lesson)
          (\<lambda>l. l\<lparr>lesson_status := Failed,
                 lesson_last_error := Some (message (categorizeError error)),
                 retry_count := Some (retries lesson + 1)\<rparr>) w))"

text \<open>
  \<^verbatim>\<open>generateSingleLesson\<close>. The topic and the lesson are the rows as the caller
  read them; every update addresses the lesson by its id.
\<close>

definition generateSingleLesson ::
  "(nat \<Rightarrow> reply) \<Rightarrow> topic \<Rightarrow> lesson \<Rightarrow> world \<Rightarrow> bool \<times> world"
where
  "generateSingleLesson svc topic lesson w =
     (case generateLessonContent svc 2
             (notify (LessonStart (lesson_number lesson) (lesson_title lesson) ContentStep)
               (update_lesson (lesson_id lesson)
                 (\<lambda>l. l\<lparr>lesson_status := Generating, lesson_last_error := None\<rparr>) w)) of
        (Inl error, w1) \<Rightarrow> lesson_failed lesson error w1
      | (Inr (lessonContent, lessonWordCount), w1) \<Rightarrow>
          (case generatePodcastSummary svc 2
                  (notify (LessonStart (lesson_number lesson) (lesson_title lesson) PodcastStep)
                    (notify (LessonContentComplete (lesson_number lesson) lessonWordCount)
                      (update_lesson (lesson_id lesson)
                        (\<lambda>l. l\<lparr>file_path := Some (lesson_file topic lesson),
                               word_count := lessonWordCount\<rparr>)
                        (writeFile (lesson_file topic lesson) lessonContent w1)))) of
             (Inl error, w2) \<Rightarrow> lesson_failed lesson error w2
           | (Inr (podcastContent, podcastWordCount), w2) \<Rightarrow>
               (True,
                notify (LessonComplete (lesson_number lesson))
                  (notify (LessonPodcastComplete (lesson_number lesson) podcastWordCount)
                    (update_lesson (lesson_id lesson)
                      (\<lambda>l. l\<lparr>podcast_file_path := Some (podcast_file topic lesson),
                             podcast_word_count := podcastWordCount,
                             lesson_status := Completed, lesson_last_error := None\<rparr>)
                      (writeFile (podcast_file topic lesson) podcastContent w2))))))"


definition after_expansions :: "nat \<Rightarrow> world \<Rightarrow> world" where
  "after_expansions n w = w\<lparr>trace := trace w @ replicate n Expansion\<rparr>"


text \<open>Responses for examples.\<close>

definition response_without_lessons :: string where
  "response_without_lessons = ''{\"topic_description\": \"About\", \"lessons\": 5}''"

definition payload_with_back_quotes :: string where
  "payload_with_back_quotes = ''{\"lessons\":[],\"topic_description\":\"```\"}''"

subsection \<open>Generate all, retry failed, status query\<close>

text \<open>
  The loop of \<^verbatim>\<open>generateAllContent\<close> over the lessons read at its start, with the
  count of failed lessons. The optional legacy callback \<^verbatim>\<open>onProgress\<close> is given by
  what it does for a lesson number: return (\<open>None\<close>) or throw.
\<close>

fun generateAll_loop ::
  "(nat \<Rightarrow> reply) \<Rightarrow> (int \<Rightarrow> thrown option) option \<Rightarrow> topic \<Rightarrow> lesson list \<Rightarrow> nat \<Rightarrow> world
     \<Rightarrow> (thrown + nat) \<times> world"
where
  "generateAll_loop svc onProgress topic [] failedCount w = (Inr failedCount, w)"
| "generateAll_loop svc onProgress topic (lesson # rest) failedCount w =
     (if lesson_status lesson = Completed
      then generateAll_loop svc onProgress topic rest failedCount w
      else if retries lesson \<ge> MAX_LESSON_RETRIES
      then generateAll_loop svc onProgress topic rest (failedCount + 1) w
      else
        (case (case onProgress of None \<Rightarrow> None | Some f \<Rightarrow> f (lesson_number lesson)) of
           Some error \<Rightarrow> (Inl error, w)
         | None \<Rightarrow>
             (case generateSingleLesson svc topic lesson w of
                (success, w') \<Rightarrow>
                  generateAll_loop svc onProgress topic rest
                    (if success then failedCount else failedCount + 1) w')))"

definition completed_count :: "lesson list \<Rightarrow> nat" where
  "completed_count ls = length (filter (\<lambda>l. lesson_status l = Completed) ls)"

definition generateAll_message :: "nat \<Rightarrow> nat \<Rightarrow> nat \<Rightarrow> string" where
  "generateAll_message failedCount completedCount totalCount =
     show_nat failedCount @ '' lesson(s) failed to generate. '' @
     show_nat completedCount @ ''/'' @ show_nat totalCount @ '' completed.''"

text \<open>The final status check of \<^verbatim>\<open>generateAllContent\<close>.\<close>

definition generateAll_finish :: "nat \<Rightarrow> nat \<Rightarrow> nat \<Rightarrow> world \<Rightarrow> world" where
  "generateAll_finish topicId totalLessons failedCount w =
     (let finalLessons = select_lessons topicId w;
          completedCount = completed_count finalLessons
      in if completedCount = length finalLessons
         then notify (GenerationComplete totalLessons)
                (update_topic topicId
                  (\<lambda>t. t\<lparr>topic_status := Completed, topic_last_error := None\<rparr>) w)
         else notify
                (GenerationError
                  (generateAll_message failedCount completedCount (length finalLessons)) True)
                (update_topic topicId
                  (\<lambda>t. t\<lparr>topic_status := Failed,
                         topic_last_error :=
                           Some (generateAll_message failedCount completedCount
                                  (length finalLessons))\<rparr>) w))"

text \<open>The \<^verbatim>\<open>catch\<close> clause of \<^verbatim>\<open>generateAllContent\<close>.\<close>

definition generateAll_catch :: "nat \<Rightarrow> thrown \<Rightarrow> world \<Rightarrow> world" where
  "generateAll_catch topicId error w =
     notify (GenerationError (message (categorizeError error))
              (isRetryable (categorizeError error)))
       (update_lessons (\<lambda>l. of_topic l = topicId \<and> lesson_status l = Generating)
          (\<lambda>l. l\<lparr>lesson_status := Failed,
                 lesson_last_error := Some (message (categorizeError error))\<rparr>)
          (update_topic topicId
            (\<lambda>t. t\<lparr>topic_status := Failed,
                   topic_last_error := Some (message (categorizeError error))\<rparr>) w))"

text \<open>\<^verbatim>\<open>generateAllContent\<close>\<close>

definition generateAllContent ::
  "(nat \<Rightarrow> reply) \<Rightarrow> (int \<Rightarrow> thrown option) option \<Rightarrow> nat \<Rightarrow> world \<Rightarrow> (thrown + unit) \<times> world"
where
  "generateAllContent svc onProgress topicId w =
     (case find_topic topicId w of
        None \<Rightarrow> (Inl (OtherError ''Error'' ''Topic not found''), w)
      | Some topic \<Rightarrow>
          if select_lessons topicId w = []
          then (Inl (OtherError ''Error'' ''No lessons found. Run topic breakdown first.''), w)
          else
            (case generateAll_loop svc onProgress topic (select_lessons topicId w) 0 w of
               (Inr failedCount, w') \<Rightarrow>
                 (Inr (),
                  generateAll_finish topicId (length (select_lessons topicId w)) failedCount w')
             | (Inl error, w') \<Rightarrow> (Inl error, generateAll_catch topicId error w')))"

text \<open>The selection of \<^verbatim>\<open>retryFailedLessons\<close>:
  \<^verbatim>\<open>status IN ('failed', 'pending') AND (retry_count < ? OR retry_count IS NULL)\<close>.\<close>

definition retry_selection :: "nat \<Rightarrow> world \<Rightarrow> lesson list" where
  "retry_selection topicId w =
     sort_key lesson_number
       (filter (\<lambda>l. of_topic l = topicId \<and>
                    (lesson_status l = Failed \<or> lesson_status l = Pending) \<and>
                    (case retry_count l of None \<Rightarrow> True | Some n \<Rightarrow> n < MAX_LESSON_RETRIES))
          (lessons w))"

fun retry_loop ::
  "(nat \<Rightarrow> reply) \<Rightarrow> topic \<Rightarrow> lesson list \<Rightarrow> nat \<Rightarrow> nat \<Rightarrow> world \<Rightarrow> (nat \<times> nat) \<times> world"
where
  "retry_loop svc topic [] succeeded failed w = ((succeeded, failed), w)"
| "retry_loop svc topic (lesson # rest) succeeded failed w =
     (case generateSingleLesson svc topic lesson w of
        (success, w') \<Rightarrow>
          (if success then retry_loop svc topic rest (succeeded + 1) failed w'
           else retry_loop svc topic rest succeeded (failed + 1) w'))"

definition retry_message :: "nat \<Rightarrow> nat \<Rightarrow> nat \<Rightarrow> string" where
  "retry_message failedLessons completedCount totalCount =
     show_nat failedLessons @ '' lesson(s) still failed. '' @
     show_nat completedCount @ ''/'' @ show_nat totalCount @ '' completed.''"

definition retry_finish :: "nat \<Rightarrow> world \<Rightarrow> world" where
  "retry_finish topicId w =
     (let finalLessons = select_lessons topicId w;
          completedCount = completed_count finalLessons
      in if completedCount = length finalLessons
         then notify (GenerationComplete (length finalLessons))
                (update_topic topicId
                  (\<lambda>t. t\<lparr>topic_status := Completed, topic_last_error := None\<rparr>) w)
         else
           (let failedLessons = length (filter (\<lambda>l. lesson_status l = Failed) finalLessons);
                errorMsg = retry_message failedLessons completedCount (length finalLessons)
            in notify (GenerationError errorMsg True)
                 (update_topic topicId
                   (\<lambda>t. t\<lparr>topic_status := Failed, topic_last_error := Some errorMsg\<rparr>) w)))"

text \<open>\<^verbatim>\<open>retryFailedLessons\<close>; the result is (retried, succeeded, failed).\<close>

definition retryFailedLessons ::
  "(nat \<Rightarrow> reply) \<Rightarrow> nat \<Rightarrow> world \<Rightarrow> (thrown + nat \<times> nat \<times> nat) \<times> world"
where
  "retryFailedLessons svc topicId w =
     (case find_topic topicId w of
        None \<Rightarrow> (Inl (OtherError ''Error'' ''Topic not found''), w)
      | Some topic \<Rightarrow>
          if retry_selection topicId w = [] then (Inr (0, 0, 0), w)
          else
            (case retry_loop svc topic (retry_selection topicId w) 0 0
                    (update_topic topicId
                      (\<lambda>t. t\<lparr>topic_status := Generating, topic_last_error := None\<rparr>) w) of
               ((succeeded, failed), w') \<Rightarrow>
                 (Inr (length (retry_selection topicId w), succeeded, failed),
                  retry_finish topicId w')))"

text \<open>\<^verbatim>\<open>getGenerationStatus\<close>\<close>

datatype phase = BreakdownPhase | ContentPhase | PodcastPhase | CompletePhase

record generation_status =
  status_topic :: topic
  status_lessons :: "lesson list"
  progress_total :: nat
  progress_completed :: nat
  progress_failed :: nat
  progress_current :: "int option"
  progress_step :: phase

definition getGenerationStatus :: "nat \<Rightarrow> world \<Rightarrow> thrown + generation_status" where
  "getGenerationStatus topicId w =
     (case find_topic topicId w of
        None \<Rightarrow> Inl (OtherError ''Error'' ''Topic not found'')
      | Some topic \<Rightarrow>
          (let ls = select_lessons topicId w;
               completedLessons = completed_count ls;
               failedLessons = length (filter (\<lambda>l. lesson_status l = Failed) ls);
               currentLesson = find (\<lambda>l. lesson_status l = Generating) ls
           in Inr \<lparr>status_topic = topic, status_lessons = ls,
                   progress_total = length ls,
                   progress_completed = completedLessons,
                   progress_failed = failedLessons,
                   progress_current =
                     (case currentLesson of None \<Rightarrow> None
                      | Some l \<Rightarrow> if lesson_number l = 0 then None else Some (lesson_number l)),
                   progress_step =
                     (if ls = [] then BreakdownPhase
                      else if completedLessons = length ls then CompletePhase
                      else (case currentLesson of
                              None \<Rightarrow> ContentPhase
                            | Some l \<Rightarrow>
                                if file_path l \<noteq> None \<and> file_path l \<noteq> Some [] then PodcastPhase
                                else ContentPhase))\<rparr>))"

subsection \<open>Executions of the pipeline\<close>

text \<open>
  The states the services can produce: from a database without lessons, topics are
  created and deleted by the routes (a topic row is inserted as \<^verbatim>\<open>pending\<close>; a
  deletion removes the topic and its lessons) and the three operations run, one after the
  other, each with any behaviour of the completion service. A process that stops while
  a lesson is being generated leaves the lesson \<^verbatim>\<open>generating\<close> with its error
  cleared and, when the body was already recorded, with its file path and word count;
  \<^verbatim>\<open>generateSingleLesson\<close> is only ever called for a lesson that is not completed and
  is below the retry ceiling.
\<close>

definition createTopic :: "nat \<Rightarrow> string \<Rightarrow> string \<Rightarrow> world \<Rightarrow> world" where
  "createTopic newId title' slug' w =
     w\<lparr>topics := topics w @
          [\<lparr>topic_id = newId, topic_title = title', slug = slug', topic_description = None,
            lesson_count = 0, topic_status = Pending, topic_last_error = None\<rparr>]\<rparr>"

definition deleteTopic :: "nat \<Rightarrow> world \<Rightarrow> world" where
  "deleteTopic topicId w =
     w\<lparr>lessons := filter (\<lambda>l. of_topic l \<noteq> topicId) (lessons w),
       topics := filter (\<lambda>t. topic_id t \<noteq> topicId) (topics w)\<rparr>"

definition interrupted :: "lesson \<Rightarrow> string option \<Rightarrow> nat \<Rightarrow> world \<Rightarrow> world" where
  "interrupted lesson path count w =
     update_lesson (lesson_id lesson)
       (\<lambda>l. l\<lparr>lesson_status := Generating, lesson_last_error := None,
              file_path := path, word_count := count\<rparr>) w"

inductive reachable :: "world \<Rightarrow> bool" where
  initial: "lessons w = [] \<Longrightarrow> reachable w"
| create: "reachable w \<Longrightarrow> reachable (createTopic newId title' slug' w)"
| delete: "reachable w \<Longrightarrow> reachable (deleteTopic topicId w)"
| breakdown: "reachable w \<Longrightarrow> reachable (snd (breakdownTopic parse svc topicId w))"
| generate: "reachable w \<Longrightarrow> reachable (snd (generateAllContent svc onProgress topicId w))"
| retry: "reachable w \<Longrightarrow> reachable (snd (retryFailedLessons svc topicId w))"
| interrupt:
    "reachable w \<Longrightarrow> lesson \<in> set (lessons w) \<Longrightarrow> lesson_status lesson \<noteq> Completed \<Longrightarrow>
     retries lesson < MAX_LESSON_RETRIES \<Longrightarrow> reachable (interrupted lesson path count w)"

text \<open>
  For stating invariants: a state differs from another in the client handle and the
  record of calls only; a completed lesson has both artifacts (both paths are set and
  both files exist); and the conditions every reachable state meets: the ids are distinct
  and below the next id, no retry counter exceeds the ceiling, a lesson that is
  \<^verbatim>\<open>generating\<close> or \<^verbatim>\<open>completed\<close> is below the ceiling, and a completed lesson has
  both artifacts.
\<close>

definition calls_only :: "world \<Rightarrow> world \<Rightarrow> bool" where
  "calls_only w w' = (\<exists>b tr. w' = w\<lparr>openaiClient := b, trace := tr\<rparr>)"

definition has_artifacts :: "world \<Rightarrow> lesson \<Rightarrow> bool" where
  "has_artifacts w l =
     (\<exists>p q. file_path l = Some p \<and> podcast_file_path l = Some q \<and>
        readFile w p \<noteq> None \<and> readFile w q \<noteq> None)"

definition consistent :: "world \<Rightarrow> bool" where
  "consistent w =
     (distinct (map lesson_id (lessons w)) \<and>
      (\<forall>l \<in> set (lessons w).
         lesson_id l < lesson_seq w \<and>
         retries l \<le> MAX_LESSON_RETRIES \<and>
         (lesson_status l = Generating \<longrightarrow> retries l < MAX_LESSON_RETRIES) \<and>
         (lesson_status l = Completed \<longrightarrow> retries l < MAX_LESSON_RETRIES \<and> has_artifacts w l)))"

text \<open>
  What a run of \<^verbatim>\<open>generateSingleLesson\<close> for \<open>lesson\<close> does to a row with the id of
  \<open>lesson\<close> (\<open>change\<close>) and which files it writes (\<open>written\<close>, newest first): on
  success both files are written and the row is completed with both paths and both
  counts; on failure the row is failed with the retry counter of \<open>lesson\<close> plus one.
\<close>

definition lesson_effect ::
  "topic \<Rightarrow> lesson \<Rightarrow> bool \<Rightarrow> (lesson \<Rightarrow> lesson) \<Rightarrow> (string \<times> string) list \<Rightarrow> bool"
where
  "lesson_effect topic lesson success change written =
     (if success then
        (\<exists>body podcast.
           written = [(podcast_file topic lesson, podcast), (lesson_file topic lesson, body)] \<and>
           change =
             (\<lambda>l. l\<lparr>lesson_status := Completed, lesson_last_error := None,
                    file_path := Some (lesson_file topic lesson),
                    word_count := countWords body,
                    podcast_file_path := Some (podcast_file topic lesson),
                    podcast_word_count := countWords podcast\<rparr>))
      else
        (\<exists>m path count.
           change =
             (\<lambda>l. l\<lparr>lesson_status := Failed, lesson_last_error := Some m,
                    retry_count := Some (retries lesson + 1),
                    file_path := path l, word_count := count l\<rparr>)))"

text \<open>
  The lessons \<^verbatim>\<open>generateAllContent\<close> passes to \<^verbatim>\<open>generateSingleLesson\<close>, and the
  state after generating the lessons of a list one after the other.
\<close>

definition eligible :: "lesson \<Rightarrow> bool" where
  "eligible l = (lesson_status l \<noteq> Completed \<and> retries l < MAX_LESSON_RETRIES)"

fun run_lessons :: "(nat \<Rightarrow> reply) \<Rightarrow> topic \<Rightarrow> lesson list \<Rightarrow> world \<Rightarrow> world" where
  "run_lessons svc topic [] w = w"
| "run_lessons svc topic (lesson # rest) w =
     run_lessons svc topic rest (snd (generateSingleLesson svc topic lesson w))"

text \<open>
  The conditions under which a list of rows can be generated one after the other: the
  table has distinct ids, and the list consists of rows of the table with distinct ids.
\<close>

definition runnable :: "world \<Rightarrow> lesson list \<Rightarrow> bool" where
  "runnable w ps =
     (distinct (map lesson_id (lessons w)) \<and> set ps \<subseteq> set (lessons w) \<and>
      distinct (map lesson_id ps))"

section \<open>Event broadcaster\<close>

text \<open>
  The data of an event and a message on the wire. A message stands for the text
  \<^verbatim>\<open>event: <type>\ndata: <JSON.stringify(data)>\n\n\<close>. The data of a
  \<^verbatim>\<open>connected\<close> event are the connection id, the topic id and, when present, the
  member \<^verbatim>\<open>currentStatus\<close>; the data of a progress event are those of the callback.
\<close>

datatype event_data =
    ConnectedData string nat "generation_status option"
  | ProgressData nat progress

record sse_event =
  event_type :: string
  event_data :: event_data

text \<open>
  A connection: the topic id it was registered under, whether \<^verbatim>\<open>res.write\<close> throws,
  and the messages written to its response so far (time stamps left out).
\<close>

record connection =
  conn_topicId :: nat
  conn_broken :: bool
  conn_written :: "sse_event list"

text \<open>
  The registry \<^verbatim>\<open>Map<string, SSEConnection>\<close>, in insertion order. Setting an
  existing key replaces the value in place; a new key goes to the end.
\<close>

type_synonym registry = "(string \<times> connection) list"

fun registry_set :: "string \<Rightarrow> connection \<Rightarrow> registry \<Rightarrow> registry" where
  "registry_set k c [] = [(k, c)]"
| "registry_set k c ((k', c') # rest) =
     (if k' = k then (k, c) # rest else (k', c') # registry_set k c rest)"

definition removeConnection :: "string \<Rightarrow> registry \<Rightarrow> registry" where
  "removeConnection connectionId reg = filter (\<lambda>(k, c). k \<noteq> connectionId) reg"

text \<open>\<^verbatim>\<open>sendToConnection\<close>: a write that throws removes the connection.\<close>

definition sendToConnection :: "string \<Rightarrow> sse_event \<Rightarrow> registry \<Rightarrow> bool \<times> registry" where
  "sendToConnection connectionId ev reg =
     (case map_of reg connectionId of
        None \<Rightarrow> (False, reg)
      | Some c \<Rightarrow>
          if conn_broken c then (False, removeConnection connectionId reg)
          else (True, registry_set connectionId (c\<lparr>conn_written := conn_written c @ [ev]\<rparr>) reg))"

text \<open>
  \<^verbatim>\<open>sendToTopic\<close>: the loop visits the entries the registry had at its start; the
  only entry removed during the loop is the one being visited.
\<close>

fun sendToTopic_loop :: "nat \<Rightarrow> sse_event \<Rightarrow> (string \<times> connection) list \<Rightarrow> registry \<Rightarrow> registry" where
  "sendToTopic_loop topicId ev [] reg = reg"
| "sendToTopic_loop topicId ev ((connectionId, c) # rest) reg =
     (if conn_topicId c = topicId
      then sendToTopic_loop topicId ev rest (snd (sendToConnection connectionId ev reg))
      else sendToTopic_loop topicId ev rest reg)"

definition sendToTopic :: "nat \<Rightarrow> sse_event \<Rightarrow> registry \<Rightarrow> registry" where
  "sendToTopic topicId ev reg = sendToTopic_loop topicId ev reg reg"

text \<open>
  \<^verbatim>\<open>addConnection\<close>; the id made from the clock and a random number is an argument.
\<close>

definition addConnection :: "string \<Rightarrow> nat \<Rightarrow> bool \<Rightarrow> registry \<Rightarrow> string \<times> registry" where
  "addConnection connectionId topicId broken reg =
     (connectionId,
      snd (sendToConnection connectionId
             \<lparr>event_type = ''connected'', event_data = ConnectedData connectionId topicId None\<rparr>
             (registry_set connectionId
                \<lparr>conn_topicId = topicId, conn_broken = broken, conn_written = []\<rparr> reg)))"

text \<open>
  The handler of \<^verbatim>\<open>GET /:id/stream\<close>. The result is the status code of an error
  response, if one is sent, and the registry.
\<close>

definition stream_route :: "world \<Rightarrow> string \<Rightarrow> nat \<Rightarrow> bool \<Rightarrow> registry \<Rightarrow> nat option \<times> registry" where
  "stream_route w connectionId topicId broken reg =
     (case find_topic topicId w of
        None \<Rightarrow> (Some 404, reg)
      | Some topic \<Rightarrow>
          (case getGenerationStatus topicId w of
             Inl e \<Rightarrow> (Some 500, snd (addConnection connectionId topicId broken reg))
           | Inr st \<Rightarrow>
               (None,
                sendToTopic topicId
                  \<lparr>event_type = ''connected'',
                   event_data = ConnectedData connectionId topicId (Some st)\<rparr>
                  (snd (addConnection connectionId topicId broken reg)))))"

text \<open>The messages a connection has received; none when it is not registered.\<close>

definition received :: "registry \<Rightarrow> string \<Rightarrow> sse_event list" where
  "received reg connectionId =
     (case map_of reg connectionId of None \<Rightarrow> [] | Some c \<Rightarrow> conn_written c)"

text \<open>
  The registry a broadcast is expected to leave: the connections of the topic whose write
  throws are gone, the other connections of the topic have the event appended, and the
  connections of other topics are as before.
\<close>

definition broadcast :: "nat \<Rightarrow> sse_event \<Rightarrow> registry \<Rightarrow> registry" where
  "broadcast topicId ev reg =
     map (\<lambda>(k, c). (k, if conn_topicId c = topicId
                        then c\<lparr>conn_written := conn_written c @ [ev]\<rparr> else c))
       (filter (\<lambda>(k, c). \<not> (conn_topicId c = topicId \<and> conn_broken c)) reg)"

text \<open>States for examples: a topic with five pending lessons, and a registry.\<close>

definition example_lesson :: "nat \<Rightarrow> lesson" where
  "example_lesson n =
     \<lparr>lesson_id = n, of_topic = 1, lesson_number = int n, lesson_title = ''Lesson'',
      lesson_description = None, file_path = None, podcast_file_path = None,
      word_count = 0, podcast_word_count = 0, lesson_status = Pending,
      retry_count = Some 0, lesson_last_error = None\<rparr>"

definition example_topic :: topic where
  "example_topic =
     \<lparr>topic_id = 1, topic_title = ''Topic'', slug = ''topic'', topic_description = None,
      lesson_count = 5, topic_status = Generating, topic_last_error = None\<rparr>"

definition five_lessons :: world where
  "five_lessons =
     example_world\<lparr>topics := [example_topic],
       lessons := map example_lesson [1, 2, 3, 4, 5], lesson_seq := 6\<rparr>"

definition example_registry :: registry where
  "example_registry =
     [(''1-a'', \<lparr>conn_topicId = 1, conn_broken = False, conn_written = []\<rparr>),
      (''1-b'', \<lparr>conn_topicId = 1, conn_broken = True, conn_written = []\<rparr>),
      (''2-a'', \<lparr>conn_topicId = 2, conn_broken = False, conn_written = []\<rparr>)]"

text \<open>
  A state in which lessons 1 and 2 of the topic are completed, and a completion service
  whose first call fails with an error that is not retried.
\<close>

definition completed_lesson :: "nat \<Rightarrow> lesson" where
  "completed_lesson n =
     (example_lesson n)\<lparr>lesson_status := Completed,
       file_path := Some (lesson_file example_topic (example_lesson n)),
       podcast_file_path := Some (podcast_file example_topic (example_lesson n)),
       word_count := 2900, podcast_word_count := 1100\<rparr>"

definition partly_done :: world where
  "partly_done =
     five_lessons\<lparr>lessons := [completed_lesson 1, completed_lesson 2, example_lesson 3,
       example_lesson 4, example_lesson 5]\<rparr>"

definition first_call_fails :: "nat \<Rightarrow> reply" where
  "first_call_fails n =
     (if n = 0 then Throws (OtherError ''Error'' ''bad request'') else Answers (Some ''text''))"


text \<open>
  The states of a topic with one lesson: after the breakdown, after a pass in which the
  lesson is generated, and after three passes in which the service throws. The answer
  \<^verbatim>\<open>text\<close> is under-length, so each of the two generations makes two expansion
  calls and accepts it.
\<close>

definition one_lesson_response :: string where
  "one_lesson_response =
     ''{\"topic_description\": \"About\", \"lessons\": [{\"number\": 1, \"title\": \"Intro\", \"description\": \"First\"}]}''"


definition short_answers :: "nat \<Rightarrow> reply" where
  "short_answers n = Answers (Some ''text'')"

definition one_pending :: world where
  "one_pending =
     snd (breakdownTopic JSON_parse (\<lambda>n. Answers (Some one_lesson_response)) 1
            (createTopic 1 ''Topic'' ''topic'' example_world))"

definition intro_lesson :: lesson where
  "intro_lesson =
     \<lparr>lesson_id = 1, of_topic = 1, lesson_number = 1, lesson_title = ''Intro'',
      lesson_description = Some ''First'', file_path = None, podcast_file_path = None,
      word_count = 0, podcast_word_count = 0, lesson_status = Pending,
      retry_count = Some 0, lesson_last_error = None\<rparr>"

definition one_done :: world where
  "one_done = snd (generateAllContent short_answers None 1 one_pending)"

section \<open>Properties of the word counter\<close>

lemma countWords_hello: "countWords ''**Hello** world!'' = 2"
  by (simp add: countWords_def split_ws_def markdown_syntax_def is_space_def)

lemma countWords_empty: "countWords [] = 0"
  by (simp add: countWords_def split_ws_def)

lemma countWords_strip:
  "c \<in> markdown_syntax \<Longrightarrow> countWords (xs @ c # ys) = countWords (xs @ ys)"
  by (simp add: countWords_def)

text \<open>
  Claim C8, as the code has it. \<^verbatim>\<open>countWords("**Hello** world!")\<close> is 2 and
  \<^verbatim>\<open>countWords("")\<close> is 0; inserting, anywhere in a text, one of the characters the
  counter strips (\<^verbatim>\<open># * _ ` ~ [ ] ( )\<close>: heading, emphasis, the asterisk list marker,
  code, strike-through and link brackets) leaves the count as it was, so it never
  increases it.
\<close>

theorem countWords_markdown:
  "countWords ''**Hello** world!'' = 2 \<and> countWords [] = 0 \<and>
   (\<forall>c xs ys. c \<in> markdown_syntax \<longrightarrow> countWords (xs @ c # ys) = countWords (xs @ ys))"
  by (simp add: countWords_hello countWords_empty countWords_strip)

theorem countWords_markdown_witness:
  "CHR ''#'' \<in> markdown_syntax \<and>
   countWords (''a '' @ CHR ''#'' # '' b'') = countWords (''a '' @ '' b'') \<and>
   countWords (''a '' @ '' b'') = 2"
proof -
  have m: "CHR ''#'' \<in> markdown_syntax"
    by (simp add: markdown_syntax_def)
  have "countWords (''a '' @ CHR ''#'' # '' b'') = countWords (''a '' @ '' b'')"
    using countWords_markdown m by blast
  moreover have "countWords (''a '' @ '' b'') = 2"
    by (simp add: countWords_def split_ws_def markdown_syntax_def is_space_def)
  ultimately show ?thesis using m by simp
qed

text \<open>
  Claim C8 as written fails for the list markers the counter does not strip: the hyphen
  (and the plus sign) of a markdown list item is a word of its own. Inserting the list
  marker \<^verbatim>\<open>-\<close> in front of \<^verbatim>\<open>" item"\<close> raises the count from 1 to 2.
\<close>

theorem countWords_list_marker_counterexample:
  "\<not> countWords ([] @ CHR ''-'' # '' item'') \<le> countWords ([] @ '' item'')"
  by (simp add: countWords_def split_ws_def markdown_syntax_def is_space_def)

section \<open>Properties of the retry loop of the adapter\<close>

lemma attempt_call_ready:
  assumes "client_ready w"
  shows "attempt_call svc w =
     ((case reply_failure (svc (length (trace w))) of
         Some e \<Rightarrow> Inl e
       | None \<Rightarrow> Inr (case svc (length (trace w)) of Answers (Some c) \<Rightarrow> c | _ \<Rightarrow> [])),
      after_calls 1 w)"
  using assms
  by (auto simp: attempt_call_def getOpenAIClient_def reply_failure_def client_ready_def
      after_calls_def split: reply.splits option.splits)

lemma attempt_call_not_ready:
  assumes "\<not> client_ready w"
  shows "attempt_call svc w =
     (Inl (OpenAIConfigError ''OPENAI_API_KEY environment variable is not set''), w)"
  using assms
  by (auto simp: attempt_call_def getOpenAIClient_def client_ready_def)

lemma after_calls_ready [simp]: "client_ready (after_calls n w)"
  by (simp add: after_calls_def client_ready_def)

lemma after_calls_trace [simp]: "length (trace (after_calls n w)) = length (trace w) + n"
  by (simp add: after_calls_def)

lemma after_calls_after_calls [simp]: "after_calls m (after_calls n w) = after_calls (n + m) w"
  by (simp add: after_calls_def replicate_add)

lemma retryable_failureD:
  assumes "retryable_failure t r"
  obtains e where "reply_failure r = Some e" and "isRetryable (categorizeError (lastErrorOf t e))"
  using assms by (auto simp: retryable_failure_def split: option.splits)

lemma loop_retry_step:
  assumes "client_ready w" and "a < mr" and "retryable_failure t (svc (length (trace w)))"
  obtains e0 where "reply_failure (svc (length (trace w))) = Some e0"
    and "callOpenAI_loop svc t mr a le w =
         callOpenAI_loop svc t mr (a + 1) (Some (lastErrorOf t e0)) (after_calls 1 w)"
proof -
  from assms(3) obtain e0 where e0: "reply_failure (svc (length (trace w))) = Some e0"
    and re0: "isRetryable (categorizeError (lastErrorOf t e0))"
    by (rule retryable_failureD)
  have "callOpenAI_loop svc t mr a le w =
      callOpenAI_loop svc t mr (a + 1) (Some (lastErrorOf t e0)) (after_calls 1 w)"
    using assms(1,2) e0 re0
    by (subst callOpenAI_loop.simps) (simp add: attempt_call_ready)
  with e0 show ?thesis by (rule that)
qed

lemma shift_retryable:
  assumes "\<forall>i<Suc k. retryable_failure t (svc (length (trace w) + i))"
  shows "\<forall>i<k. retryable_failure t (svc (length (trace (after_calls 1 w)) + i))"
proof (intro allI impI)
  fix i assume "i < k"
  then have "Suc i < Suc k" by simp
  with assms have "retryable_failure t (svc (length (trace w) + Suc i))"
    by blast
  then show "retryable_failure t (svc (length (trace (after_calls 1 w)) + i))"
    by simp
qed




text \<open>A success after \<open>k\<close> retryable failures is returned.\<close>

lemma loop_success:
  assumes "client_ready w" and "a + int k \<le> mr"
    and "\<forall>i<k. retryable_failure t (svc (length (trace w) + i))"
    and "svc (length (trace w) + k) = Answers (Some c)" and "c \<noteq> []"
  shows "callOpenAI_loop svc t mr a le w = (Inr c, after_calls (Suc k) w)"
  using assms
proof (induction k arbitrary: a w le)
  case 0
  then show ?case
    by (subst callOpenAI_loop.simps) (simp add: attempt_call_ready reply_failure_def)
next
  case (Suc k)
  have r0: "retryable_failure t (svc (length (trace w)))"
    using Suc.prems(3) by (metis add.right_neutral zero_less_Suc)
  have "a < mr"
    using Suc.prems(2) by linarith
  with Suc.prems(1) obtain e0 where
    step: "callOpenAI_loop svc t mr a le w =
      callOpenAI_loop svc t mr (a + 1) (Some (lastErrorOf t e0)) (after_calls 1 w)"
    using r0 by (rule loop_retry_step)
  have "callOpenAI_loop svc t mr (a + 1) (Some (lastErrorOf t e0)) (after_calls 1 w) =
      (Inr c, after_calls (Suc k) (after_calls 1 w))"
  proof (rule Suc.IH)
    show "client_ready (after_calls 1 w)" by simp
    show "a + 1 + int k \<le> mr" using Suc.prems(2) by simp
    show "\<forall>i<k. retryable_failure t (svc (length (trace (after_calls 1 w)) + i))"
      using Suc.prems(3) by (rule shift_retryable)
    show "svc (length (trace (after_calls 1 w)) + k) = Answers (Some c)"
      using Suc.prems(4) by simp
    show "c \<noteq> []" by fact
  qed
  with step show ?case by simp
qed



section \<open>Properties of the word-count gate\<close>

text \<open>
  A call of the adapter changes nothing but the client handle and the record of calls,
  to which it adds completion calls only.
\<close>

lemma attempt_call_calls:
  "\<exists>b k. snd (attempt_call svc w) =
     w\<lparr>openaiClient := b, trace := trace w @ replicate k Completion\<rparr>"
proof (cases "client_ready w")
  case True
  then have "snd (attempt_call svc w) =
      w\<lparr>openaiClient := True, trace := trace w @ replicate 1 Completion\<rparr>"
    by (simp add: attempt_call_ready after_calls_def)
  then show ?thesis by blast
next
  case False
  then have "snd (attempt_call svc w) =
      w\<lparr>openaiClient := openaiClient w, trace := trace w @ replicate 0 Completion\<rparr>"
    by (simp add: attempt_call_not_ready)
  then show ?thesis by blast
qed

lemma callOpenAI_loop_calls:
  "\<exists>b k. snd (callOpenAI_loop svc t mr a le w) =
     w\<lparr>openaiClient := b, trace := trace w @ replicate k Completion\<rparr>"
proof (induction svc t mr a le w rule: callOpenAI_loop.induct)
  case (1 svc t mr a le w)
  obtain b1 k1 where k1: "snd (attempt_call svc w) =
      w\<lparr>openaiClient := b1, trace := trace w @ replicate k1 Completion\<rparr>"
    using attempt_call_calls by blast
  obtain r w' where aw: "attempt_call svc w = (r, w')"
    by (cases "attempt_call svc w")
  with k1 have w': "w' = w\<lparr>openaiClient := b1, trace := trace w @ replicate k1 Completion\<rparr>"
    by simp
  have same: "\<exists>b k. w = w\<lparr>openaiClient := b, trace := trace w @ replicate k Completion\<rparr>"
  proof (intro exI)
    show "w = w\<lparr>openaiClient := openaiClient w, trace := trace w @ replicate 0 Completion\<rparr>"
      by simp
  qed
  show ?case
  proof (cases "a \<le> mr")
    case False
    then have "snd (callOpenAI_loop svc t mr a le w) = w"
      by (subst callOpenAI_loop.simps) simp
    with same show ?thesis by simp
  next
    case True
    show ?thesis
    proof (cases r)
      case (Inr content)
      with aw True have "snd (callOpenAI_loop svc t mr a le w) = w'"
        by (subst callOpenAI_loop.simps) simp
      with w' show ?thesis by blast
    next
      case (Inl error)
      show ?thesis
      proof (cases "\<not> isRetryable (categorizeError (lastErrorOf t error)) \<or> a \<ge> mr")
        case stop: True
        with aw True Inl have "snd (callOpenAI_loop svc t mr a le w) = w'"
          by (subst callOpenAI_loop.simps) auto
        with w' show ?thesis by blast
      next
        case go: False
        obtain b2 k2 where "snd (callOpenAI_loop svc t mr (a + 1)
              (Some (lastErrorOf t error)) w') =
            w'\<lparr>openaiClient := b2, trace := trace w' @ replicate k2 Completion\<rparr>"
          using "1.IH" [OF True aw [symmetric] Inl go] by blast
        moreover have "callOpenAI_loop svc t mr a le w =
            callOpenAI_loop svc t mr (a + 1) (Some (lastErrorOf t error)) w'"
          using aw True Inl go by (subst callOpenAI_loop.simps) auto
        ultimately have "snd (callOpenAI_loop svc t mr a le w) =
            w\<lparr>openaiClient := b2, trace := trace w @ replicate (k1 + k2) Completion\<rparr>"
          using w' by (simp add: replicate_add)
        then show ?thesis by blast
      qed
    qed
  qed
qed

lemma callOpenAI_calls:
  "\<exists>b k. snd (callOpenAI svc promptName options w) =
     w\<lparr>openaiClient := b, trace := trace w @ replicate k Completion\<rparr>"
proof (cases "promptName \<in> set (prompt_names w)")
  case True
  then show ?thesis
    using callOpenAI_loop_calls [of svc "the_timeout options" "the_maxRetries options" 0 None w]
    by (simp add: callOpenAI_def)
next
  case False
  then have "snd (callOpenAI svc promptName options w) =
      w\<lparr>openaiClient := openaiClient w, trace := trace w @ replicate 0 Completion\<rparr>"
    by (simp add: callOpenAI_def)
  then show ?thesis by blast
qed



lemma expansions_after [simp]: "expansions (after_expansions n w) = expansions w + n"
  by (simp add: expansions_def after_expansions_def)

lemma trace_after_expansions [simp]:
  "length (trace (after_expansions n w)) = length (trace w) + n"
  by (simp add: after_expansions_def)

lemma after_expansions_0 [simp]: "after_expansions 0 w = w"
  by (simp add: after_expansions_def)












lemma callOpenAI_first_success:
  assumes "promptName \<in> set (prompt_names w)" and "client_ready w"
    and "svc (length (trace w)) = Answers (Some c)" and "c \<noteq> []"
  shows "callOpenAI svc promptName default_options w = (Inr c, after_calls 1 w)"
proof -
  have "callOpenAI_loop svc (the_timeout default_options) (the_maxRetries default_options)
      0 None w = (Inr c, after_calls (Suc 0) w)"
    using assms(2-4)
    by (intro loop_success) (simp_all add: the_maxRetries_def default_options_def)
  with assms(1) show ?thesis by (simp add: callOpenAI_def)
qed


section \<open>Properties of the event broadcaster\<close>

lemma map_of_middle:
  "k \<notin> fst ` set xs \<Longrightarrow> map_of (xs @ (k, c) # ys) k = Some c"
  by (induction xs) auto

lemma registry_set_middle:
  "k \<notin> fst ` set xs \<Longrightarrow> registry_set k c' (xs @ (k, c) # ys) = xs @ (k, c') # ys"
  by (induction xs) auto

lemma removeConnection_middle:
  "k \<notin> fst ` set xs \<Longrightarrow> k \<notin> fst ` set ys \<Longrightarrow>
   removeConnection k (xs @ (k, c) # ys) = xs @ ys"
proof -
  assume "k \<notin> fst ` set xs" "k \<notin> fst ` set ys"
  then have "filter (\<lambda>(k', c). k' \<noteq> k) xs = xs" "filter (\<lambda>(k', c). k' \<noteq> k) ys = ys"
    by (force simp: filter_id_conv)+
  then show ?thesis by (simp add: removeConnection_def)
qed

lemma broadcast_keys: "fst ` set (broadcast topicId ev xs) \<subseteq> fst ` set xs"
  by (force simp: broadcast_def)

lemma broadcast_append:
  "broadcast topicId ev (xs @ ys) = broadcast topicId ev xs @ broadcast topicId ev ys"
  by (simp add: broadcast_def)

text \<open>
  The loop of \<^verbatim>\<open>sendToTopic\<close>, after the entries \<open>xs\<close> and before the entries
  \<open>ys\<close>: the visited part of the registry is as \<open>broadcast\<close> says, the rest untouched.
\<close>

lemma sendToTopic_loop_broadcast:
  assumes "distinct (map fst (xs @ ys))"
  shows "sendToTopic_loop topicId ev ys (broadcast topicId ev xs @ ys) =
     broadcast topicId ev xs @ broadcast topicId ev ys"
  using assms
proof (induction ys arbitrary: xs)
  case Nil
  then show ?case by (simp add: broadcast_def)
next
  case (Cons entry ys)
  obtain k c where entry: "entry = (k, c)"
    by (cases entry)
  let ?B = "broadcast topicId ev"
  have fresh: "k \<notin> fst ` set (?B xs)" "k \<notin> fst ` set ys"
    using Cons.prems entry broadcast_keys [of topicId ev xs] by auto
  have dist: "distinct (map fst ((xs @ [(k, c)]) @ ys))"
    using Cons.prems entry by simp
  have IH: "sendToTopic_loop topicId ev ys (?B (xs @ [(k, c)]) @ ys) =
      ?B (xs @ [(k, c)]) @ ?B ys"
    using Cons.IH [OF dist] .
  show ?case
  proof (cases "conn_topicId c = topicId")
    case False
    then have "?B (xs @ [(k, c)]) = ?B xs @ [(k, c)]" "?B ((k, c) # ys) = (k, c) # ?B ys"
      by (simp_all add: broadcast_def)
    with IH False entry show ?thesis by simp
  next
    case True
    show ?thesis
    proof (cases "conn_broken c")
      case broken: True
      then have B: "?B (xs @ [(k, c)]) = ?B xs" "?B ((k, c) # ys) = ?B ys"
        using True by (simp_all add: broadcast_def)
      have "snd (sendToConnection k ev (?B xs @ (k, c) # ys)) = ?B xs @ ys"
        using fresh broken
        by (simp add: sendToConnection_def map_of_middle removeConnection_middle
            del: map_of_append)
      with IH B True entry show ?thesis by simp
    next
      case ok: False
      let ?c' = "c\<lparr>conn_written := conn_written c @ [ev]\<rparr>"
      have B: "?B (xs @ [(k, c)]) = ?B xs @ [(k, ?c')]" "?B ((k, c) # ys) = (k, ?c') # ?B ys"
        using True ok by (simp_all add: broadcast_def)
      have "snd (sendToConnection k ev (?B xs @ (k, c) # ys)) = ?B xs @ (k, ?c') # ys"
        using fresh ok
        by (simp add: sendToConnection_def map_of_middle registry_set_middle
            del: map_of_append)
      with IH B True entry show ?thesis by simp
    qed
  qed
qed

lemma sendToTopic_broadcast:
  assumes "distinct (map fst reg)"
  shows "sendToTopic topicId ev reg = broadcast topicId ev reg"
  using sendToTopic_loop_broadcast [of "[]" reg topicId ev] assms
  by (simp add: sendToTopic_def broadcast_def)

lemma map_of_broadcast:
  assumes "distinct (map fst reg)" and "(k, c) \<in> set reg"
  shows "map_of (broadcast topicId ev reg) k =
     (if conn_topicId c = topicId
      then (if conn_broken c then None else Some (c\<lparr>conn_written := conn_written c @ [ev]\<rparr>))
      else Some c)"
  using assms
proof (induction reg)
  case Nil
  then show ?case by simp
next
  case (Cons entry reg)
  obtain k' c' where entry: "entry = (k', c')"
    by (cases entry)
  show ?case
  proof (cases "k' = k")
    case True
    with Cons.prems entry have c: "c' = c"
      by (auto simp: rev_image_eqI)
    have "k \<notin> fst ` set (broadcast topicId ev reg)"
      using Cons.prems(1) entry True broadcast_keys [of topicId ev reg] by auto
    then have "map_of (broadcast topicId ev reg) k = None"
      by (simp add: map_of_eq_None_iff)
    with True c entry show ?thesis
      by (simp add: broadcast_def)
  next
    case False
    with Cons.prems entry have "(k, c) \<in> set reg" "distinct (map fst reg)"
      by auto
    then have "map_of (broadcast topicId ev reg) k =
        (if conn_topicId c = topicId
         then (if conn_broken c then None else Some (c\<lparr>conn_written := conn_written c @ [ev]\<rparr>))
         else Some c)"
      using Cons.IH by simp
    moreover have "map_of (broadcast topicId ev (entry # reg)) k =
        map_of (broadcast topicId ev reg) k"
      using False entry by (simp add: broadcast_def)
    ultimately show ?thesis by simp
  qed
qed

text \<open>
  Claim C6. In a registry (a map: the connection ids are distinct), a broadcast for a
  topic appends the event to every registered connection of that topic whose write
  succeeds, removes exactly the connections of that topic whose write throws, and leaves
  the connections of every other topic as they were, with nothing appended. The
  operation returns the registry: the failure of a write is caught in
  \<^verbatim>\<open>sendToConnection\<close> and reaches no caller.
\<close>

theorem sendToTopic_delivery:
  assumes "distinct (map fst reg)" and "(k, c) \<in> set reg"
  shows
    "(conn_topicId c = topicId \<and> \<not> conn_broken c \<longrightarrow>
        map_of (sendToTopic topicId ev reg) k =
          Some (c\<lparr>conn_written := conn_written c @ [ev]\<rparr>)) \<and>
     (conn_topicId c = topicId \<and> conn_broken c \<longrightarrow>
        map_of (sendToTopic topicId ev reg) k = None) \<and>
     (conn_topicId c \<noteq> topicId \<longrightarrow> map_of (sendToTopic topicId ev reg) k = Some c) \<and>
     map fst (sendToTopic topicId ev reg) =
       map fst (filter (\<lambda>(k, c). \<not> (conn_topicId c = topicId \<and> conn_broken c)) reg)"
proof -
  have eq: "sendToTopic topicId ev reg = broadcast topicId ev reg"
    using assms(1) by (rule sendToTopic_broadcast)
  have keys: "map fst (broadcast topicId ev reg) =
      map fst (filter (\<lambda>(k, c). \<not> (conn_topicId c = topicId \<and> conn_broken c)) reg)"
    by (simp add: broadcast_def comp_def case_prod_unfold)
  show ?thesis
    unfolding eq using map_of_broadcast [OF assms, of topicId ev] keys by simp
qed

theorem sendToTopic_delivery_witness:
  "map_of (sendToTopic 1
      \<lparr>event_type = ''lesson_start'', event_data = ProgressData 1 (LessonComplete 1)\<rparr>
      example_registry) ''1-a'' =
     Some \<lparr>conn_topicId = 1, conn_broken = False,
           conn_written =
             [\<lparr>event_type = ''lesson_start'', event_data = ProgressData 1 (LessonComplete 1)\<rparr>]\<rparr> \<and>
   map_of (sendToTopic 1
      \<lparr>event_type = ''lesson_start'', event_data = ProgressData 1 (LessonComplete 1)\<rparr>
      example_registry) ''1-b'' = None \<and>
   map_of (sendToTopic 1
      \<lparr>event_type = ''lesson_start'', event_data = ProgressData 1 (LessonComplete 1)\<rparr>
      example_registry) ''2-a'' =
     Some \<lparr>conn_topicId = 2, conn_broken = False, conn_written = []\<rparr>"
proof -
  let ?ev = "\<lparr>event_type = ''lesson_start'', event_data = ProgressData 1 (LessonComplete 1)\<rparr>"
  have d: "distinct (map fst example_registry)"
    by (simp add: example_registry_def)
  have a: "(''1-a'', \<lparr>conn_topicId = 1, conn_broken = False, conn_written = []\<rparr>)
      \<in> set example_registry"
    and b: "(''1-b'', \<lparr>conn_topicId = 1, conn_broken = True, conn_written = []\<rparr>)
      \<in> set example_registry"
    and c: "(''2-a'', \<lparr>conn_topicId = 2, conn_broken = False, conn_written = []\<rparr>)
      \<in> set example_registry"
    by (simp_all add: example_registry_def)
  show ?thesis
    using sendToTopic_delivery [OF d a, of 1 ?ev] sendToTopic_delivery [OF d b, of 1 ?ev]
      sendToTopic_delivery [OF d c, of 1 ?ev]
    by simp
qed

section \<open>Properties of the stream endpoint\<close>

lemma registry_set_fst:
  "map fst (registry_set k c reg) =
     (if k \<in> set (map fst reg) then map fst reg else map fst reg @ [k])"
  by (induction reg) (auto simp del: set_map)

lemma registry_set_distinct:
  "distinct (map fst reg) \<Longrightarrow> distinct (map fst (registry_set k c reg))"
  by (simp add: registry_set_fst del: set_map)

lemma map_of_registry_set: "map_of (registry_set k c reg) k = Some c"
  by (induction reg) auto

lemma registry_set_twice: "registry_set k c' (registry_set k c reg) = registry_set k c' reg"
  by (induction reg) auto

lemma addConnection_ok:
  "addConnection connectionId topicId False reg =
     (connectionId,
      registry_set connectionId
        \<lparr>conn_topicId = topicId, conn_broken = False,
         conn_written = [\<lparr>event_type = ''connected'',
                          event_data = ConnectedData connectionId topicId None\<rparr>]\<rparr> reg)"
  by (simp add: addConnection_def sendToConnection_def map_of_registry_set registry_set_twice)

lemma stream_connect_snapshot_aux:
  assumes "find_topic topicId w = Some topic" and "distinct (map fst reg)"
  shows
    "\<exists>st. getGenerationStatus topicId w = Inr st \<and>
       fst (stream_route w connectionId topicId False reg) = None \<and>
       received (snd (stream_route w connectionId topicId False reg)) connectionId =
         [\<lparr>event_type = ''connected'', event_data = ConnectedData connectionId topicId None\<rparr>,
          \<lparr>event_type = ''connected'',
           event_data = ConnectedData connectionId topicId (Some st)\<rparr>]"
proof -
  obtain st where st: "getGenerationStatus topicId w = Inr st"
    using assms(1) by (simp add: getGenerationStatus_def Let_def)
  let ?ev1 = "\<lparr>event_type = ''connected'', event_data = ConnectedData connectionId topicId None\<rparr>"
  let ?ev2 = "\<lparr>event_type = ''connected'',
      event_data = ConnectedData connectionId topicId (Some st)\<rparr>"
  let ?c1 = "\<lparr>conn_topicId = topicId, conn_broken = False, conn_written = [?ev1]\<rparr>"
  let ?reg1 = "registry_set connectionId ?c1 reg"
  have route: "stream_route w connectionId topicId False reg = (None, sendToTopic topicId ?ev2 ?reg1)"
    using assms(1) st by (simp add: stream_route_def addConnection_ok)
  have d1: "distinct (map fst ?reg1)"
    using assms(2) by (rule registry_set_distinct)
  have "map_of ?reg1 connectionId = Some ?c1"
    by (rule map_of_registry_set)
  then have mem: "(connectionId, ?c1) \<in> set ?reg1"
    by (rule map_of_SomeD)
  have "map_of (broadcast topicId ?ev2 ?reg1) connectionId =
      Some (?c1\<lparr>conn_written := conn_written ?c1 @ [?ev2]\<rparr>)"
    using map_of_broadcast [OF d1 mem, of topicId ?ev2] by simp
  then have "received (sendToTopic topicId ?ev2 ?reg1) connectionId = [?ev1, ?ev2]"
    by (simp add: sendToTopic_broadcast [OF d1] received_def)
  with route st show ?thesis by simp
qed

text \<open>
  Claim C9, as the code has it. When the topic exists and the writes to the new
  connection succeed, the handler sends no error response and the new subscriber has
  received exactly two \<^verbatim>\<open>connected\<close> messages when the handler returns: the first,
  sent by \<^verbatim>\<open>addConnection\<close>, carries the connection id and the topic id only; the
  second, broadcast to the topic right after, carries also the current status view of
  \<^verbatim>\<open>getGenerationStatus\<close>.
\<close>

theorem stream_connect_snapshot:
  assumes "find_topic topicId w = Some topic" and "distinct (map fst reg)"
  shows
    "\<exists>st. getGenerationStatus topicId w = Inr st \<and>
       fst (stream_route w connectionId topicId False reg) = None \<and>
       received (snd (stream_route w connectionId topicId False reg)) connectionId =
         [\<lparr>event_type = ''connected'', event_data = ConnectedData connectionId topicId None\<rparr>,
          \<lparr>event_type = ''connected'',
           event_data = ConnectedData connectionId topicId (Some st)\<rparr>]"
  using assms by (rule stream_connect_snapshot_aux)

theorem stream_connect_snapshot_witness:
  "\<exists>st. getGenerationStatus 1 five_lessons = Inr st \<and>
     fst (stream_route five_lessons ''1-c'' 1 False example_registry) = None \<and>
     received (snd (stream_route five_lessons ''1-c'' 1 False example_registry)) ''1-c'' =
       [\<lparr>event_type = ''connected'', event_data = ConnectedData ''1-c'' 1 None\<rparr>,
        \<lparr>event_type = ''connected'', event_data = ConnectedData ''1-c'' 1 (Some st)\<rparr>]"
proof -
  have t: "find_topic 1 five_lessons = Some example_topic"
    by (simp add: find_topic_def five_lessons_def example_topic_def example_world_def)
  have d: "distinct (map fst example_registry)"
    by (simp add: example_registry_def)
  show ?thesis
    using stream_connect_snapshot [OF t d] .
qed

text \<open>
  Claim C9 as written fails: the initial message delivered to a new subscriber is the
  one \<^verbatim>\<open>addConnection\<close> sends, and it carries no status snapshot.
\<close>

theorem stream_initial_message_counterexample:
  "hd (received (snd (stream_route five_lessons ''1-c'' 1 False example_registry)) ''1-c'') =
     \<lparr>event_type = ''connected'', event_data = ConnectedData ''1-c'' 1 None\<rparr>"
proof -
  have t: "find_topic 1 five_lessons = Some example_topic"
    by (simp add: find_topic_def five_lessons_def example_topic_def example_world_def)
  have d: "distinct (map fst example_registry)"
    by (simp add: example_registry_def)
  obtain st where "received (snd (stream_route five_lessons ''1-c'' 1 False example_registry))
      ''1-c'' =
      [\<lparr>event_type = ''connected'', event_data = ConnectedData ''1-c'' 1 None\<rparr>,
       \<lparr>event_type = ''connected'', event_data = ConnectedData ''1-c'' 1 (Some st)\<rparr>]"
    using stream_connect_snapshot_aux [OF t d] by blast
  then show ?thesis by simp
qed

section \<open>Properties of the topic breakdown\<close>

lemma find_update_same:
  assumes "\<And>t. topic_id (f t) = topic_id t"
  shows "find (\<lambda>t. topic_id t = topicId) (map (\<lambda>t. if topic_id t = topicId then f t else t) ts) =
     map_option f (find (\<lambda>t. topic_id t = topicId) ts)"
  using assms by (induction ts) auto

lemma find_topic_update:
  assumes "\<And>t. topic_id (f t) = topic_id t"
  shows "find_topic topicId (update_topic topicId f w) = map_option f (find_topic topicId w)"
  using find_update_same [of f topicId "topics w"] assms
  by (simp add: find_topic_def update_topic_def)

lemma find_topic_calls [simp]:
  "find_topic topicId (w\<lparr>openaiClient := b, trace := tr\<rparr>) = find_topic topicId w"
  by (simp add: find_topic_def)

lemma find_topic_notify [simp]: "find_topic topicId (notify ev w) = find_topic topicId w"
  by (simp add: find_topic_def notify_def)

lemma lessons_notify [simp]: "lessons (notify ev w) = lessons w"
  by (simp add: notify_def)

lemma lessons_update_topic [simp]: "lessons (update_topic topicId f w) = lessons w"
  by (simp add: update_topic_def)

lemma callOpenAI_db:
  assumes "callOpenAI svc promptName options w = (r, w1)"
  shows "lessons w1 = lessons w" and "find_topic topicId w1 = find_topic topicId w"
proof -
  obtain b k where "snd (callOpenAI svc promptName options w) =
      w\<lparr>openaiClient := b, trace := trace w @ replicate k Completion\<rparr>"
    using callOpenAI_calls by blast
  with assms have w1: "w1 = w\<lparr>openaiClient := b, trace := trace w @ replicate k Completion\<rparr>"
    by simp
  show "lessons w1 = lessons w" "find_topic topicId w1 = find_topic topicId w"
    by (simp_all add: w1)
qed

text \<open>
  When the parsed response has no array under \<^verbatim>\<open>lessons\<close>, the \<^verbatim>\<open>try\<close> block
  throws in the state the call left.
\<close>

lemma breakdown_try_rejects:
  assumes "callOpenAI svc ''topic_breakdown'' default_options w = (Inr response, w1)"
    and "parseJsonResponse parse response = Inr breakdown"
    and "\<forall>items. get_prop breakdown ''lessons'' \<noteq> Inr (Some (JArr items))"
  shows "\<exists>e. breakdown_try parse svc topicId w = (Inl e, w1) \<and>
     (breakdown \<noteq> JNull \<longrightarrow> e = OtherError ''Error'' ''Invalid response: missing lessons array'')"
proof (cases "get_prop breakdown ''lessons''")
  case (Inl e)
  then have "breakdown = JNull"
    by (cases breakdown) simp_all
  with assms(1,2) Inl show ?thesis
    by (simp add: breakdown_try_def)
next
  case (Inr v)
  show ?thesis
  proof (cases v)
    case None
    with assms(1,2) Inr show ?thesis
      by (simp add: breakdown_try_def)
  next
    case (Some j)
    with assms(3) Inr have "\<forall>items. j \<noteq> JArr items"
      by simp
    with assms(1,2) Inr Some show ?thesis
      by (cases j) (simp_all add: breakdown_try_def)
  qed
qed

lemma find_fence_newline:
  assumes "find_fence xs = None"
  shows "find_fence (xs @ CHR 0x0A # ys) =
     (case find_fence ys of None \<Rightarrow> None | Some (body, rest) \<Rightarrow> Some (xs @ CHR 0x0A # body, rest))"
  using assms
proof (induction xs)
  case Nil
  then show ?case
    by (simp add: starts_with_def split: option.splits)
next
  case (Cons c cs)
  from Cons.prems have no: "\<not> starts_with (c # cs) ''```''" and rest: "find_fence cs = None"
    by (auto split: if_splits option.splits)
  have "\<not> starts_with (c # cs @ CHR 0x0A # ys) ''```''"
  proof (cases cs)
    case Nil
    then show ?thesis by (simp add: starts_with_def)
  next
    case (Cons d ds)
    with no show ?thesis
      by (cases ds) (auto simp: starts_with_def)
  qed
  with Cons.IH [OF rest] show ?case
    by (simp split: option.splits)
qed

lemma trim_fence_body:
  "trim (dropWhile is_space payload @ [CHR 0x0A]) = trim payload"
proof (cases "dropWhile is_space payload")
  case Nil
  show ?thesis
    unfolding trim_def Nil by (simp add: is_space_def)
next
  case (Cons c cs)
  then have "\<not> is_space c"
    using hd_dropWhile [of is_space payload] by (metis list.distinct(1) list.sel(1))
  moreover have "is_space (CHR 0x0A)"
    by (simp add: is_space_def)
  ultimately show ?thesis
    using Cons by (simp add: trim_def)
qed

text \<open>
  A payload without three back quotes in a row parses the same inside a
  \<^verbatim>\<open>```json\<close> fence.
\<close>

lemma jsonStr_fenced:
  assumes "find_fence payload = None"
  shows "jsonStr (fenced payload) = jsonStr payload"
proof -
  have nl: "is_space (CHR 0x0A)"
    by (simp add: is_space_def)
  have plain: "jsonStr payload = trim payload"
    using assms by (simp add: jsonStr_def fence_match_def)
  have open_fence: "find_fence (fenced payload) =
      Some ([], ''json'' @ CHR 0x0A # payload @ CHR 0x0A # ''```'')"
    by (simp add: fenced_def starts_with_def)
  have skip: "dropWhile is_space (CHR 0x0A # payload @ CHR 0x0A # ''```'') =
      dropWhile is_space (payload @ CHR 0x0A # ''```'')"
    using nl by simp
  have closing: "find_fence ''```'' = Some ([], [])"
    by (simp add: starts_with_def)
  have body: "\<exists>body rest. find_fence (dropWhile is_space (payload @ CHR 0x0A # ''```'')) =
      Some (body, rest) \<and> trim body = trim payload"
  proof (cases "dropWhile is_space payload")
    case Nil
    then have all: "\<forall>x\<in>set payload. is_space x"
      by (simp add: dropWhile_eq_Nil_conv)
    then have d: "dropWhile is_space (payload @ CHR 0x0A # ''```'') = ''```''"
      using nl by (simp add: dropWhile_append is_space_def)
    have tp: "trim payload = []"
      unfolding trim_def Nil by simp
    have "trim [] = []"
      by (simp add: trim_def)
    then have "find_fence (dropWhile is_space (payload @ CHR 0x0A # ''```'')) = Some ([], []) \<and>
        trim [] = trim payload"
      unfolding d tp using closing by simp
    then show ?thesis by blast
  next
    case (Cons c cs)
    then have some: "\<exists>x\<in>set payload. \<not> is_space x"
      by (metis dropWhile_eq_Nil_conv list.distinct(1))
    then have d: "dropWhile is_space (payload @ CHR 0x0A # ''```'') =
        dropWhile is_space payload @ CHR 0x0A # ''```''"
      by (auto simp: dropWhile_append)
    have "find_fence (dropWhile is_space payload) = None"
    proof -
      have "find_fence (takeWhile is_space payload @ dropWhile is_space payload) = None"
        using assms by simp
      moreover have "find_fence (xs @ zs) = None \<Longrightarrow> find_fence zs = None" for xs zs
      proof (induction xs)
        case Nil
        then show ?case by simp
      next
        case (Cons x xs)
        then show ?case by (auto split: if_splits option.splits)
      qed
      ultimately show ?thesis by blast
    qed
    then have "find_fence (dropWhile is_space payload @ CHR 0x0A # ''```'') =
        Some (dropWhile is_space payload @ [CHR 0x0A], [])"
      using closing by (simp add: find_fence_newline)
    with d show ?thesis
      using trim_fence_body [of payload] by simp
  qed
  then obtain body rest where
    b: "find_fence (dropWhile is_space (payload @ CHR 0x0A # ''```'')) = Some (body, rest)"
    and t: "trim body = trim payload"
    by blast
  have "fence_match (fenced payload) = Some body"
    using open_fence skip b
    by (simp add: fence_match_def starts_with_def)
  with t plain show ?thesis
    by (simp add: jsonStr_def)
qed

lemma find_topic_failed:
  assumes "find_topic topicId w = Some topic"
  shows "find_topic topicId
       (notify ev (update_topic topicId
          (\<lambda>t. t\<lparr>topic_status := Failed, topic_last_error := Some m\<rparr>) w)) =
     Some (topic\<lparr>topic_status := Failed, topic_last_error := Some m\<rparr>)"
  using assms by (simp add: find_topic_update)

text \<open>
  Claim C5, as the code has it. Let the topic exist and the key be configured, let the
  call for the breakdown, made in the state where the topic is marked
  \<^verbatim>\<open>generating\<close>, return a response, and let the response parse to a value with no
  array under \<^verbatim>\<open>lessons\<close>. Then \<^verbatim>\<open>breakdownTopic\<close> throws, the topic row ends
  \<^verbatim>\<open>failed\<close> with the message of the thrown error as its last error, and the table of
  lessons is as before: no row is inserted. The error is the one for a missing lessons
  array unless the response parsed to \<^verbatim>\<open>null\<close>. A response wrapped in a
  \<^verbatim>\<open>```json\<close> fence is parsed like the payload alone whenever the payload contains no
  run of three back quotes.
\<close>

theorem breakdown_rejection:
  assumes "find_topic topicId w = Some topic" and "isApiKeyConfigured w"
    and "callOpenAI svc ''topic_breakdown'' default_options (breakdown_started topicId w) =
         (Inr response, w1)"
    and "parseJsonResponse parse response = Inr breakdown"
    and "\<forall>items. get_prop breakdown ''lessons'' \<noteq> Inr (Some (JArr items))"
  shows
    "(\<exists>e. fst (breakdownTopic parse svc topicId w) = Inl e \<and>
        find_topic topicId (snd (breakdownTopic parse svc topicId w)) =
          Some (topic\<lparr>topic_status := Failed,
                      topic_last_error := Some (message (categorizeError e))\<rparr>) \<and>
        (breakdown \<noteq> JNull \<longrightarrow>
           e = OtherError ''Error'' ''Invalid response: missing lessons array'')) \<and>
     lessons (snd (breakdownTopic parse svc topicId w)) = lessons w \<and>
     (\<forall>payload. find_fence payload = None \<longrightarrow>
        parseJsonResponse parse (fenced payload) = parseJsonResponse parse payload)"
proof -
  obtain e where e: "breakdown_try parse svc topicId (breakdown_started topicId w) = (Inl e, w1)"
    and msg: "breakdown \<noteq> JNull \<longrightarrow>
      e = OtherError ''Error'' ''Invalid response: missing lessons array''"
    using breakdown_try_rejects [OF assms(3,4,5)] by blast
  have started: "find_topic topicId (breakdown_started topicId w) =
      Some (topic\<lparr>topic_status := Generating, topic_last_error := None\<rparr>)"
    using assms(1) by (simp add: breakdown_started_def find_topic_update)
  have t1: "find_topic topicId w1 =
      Some (topic\<lparr>topic_status := Generating, topic_last_error := None\<rparr>)"
    using callOpenAI_db(2) [OF assms(3)] started by simp
  have l1: "lessons w1 = lessons w"
    using callOpenAI_db(1) [OF assms(3)] by (simp add: breakdown_started_def)
  let ?w' = "notify (GenerationError (message (categorizeError e))
        (isRetryable (categorizeError e)))
      (update_topic topicId
        (\<lambda>t. t\<lparr>topic_status := Failed,
               topic_last_error := Some (message (categorizeError e))\<rparr>) w1)"
  have result: "breakdownTopic parse svc topicId w = (Inl e, ?w')"
    using assms(1,2) e by (simp add: breakdownTopic_def)
  have topic': "find_topic topicId ?w' =
      Some (topic\<lparr>topic_status := Failed,
                  topic_last_error := Some (message (categorizeError e))\<rparr>)"
    using find_topic_failed [OF t1] by simp
  have lessons': "lessons ?w' = lessons w"
    using l1 by simp
  have fence: "parseJsonResponse parse (fenced payload) = parseJsonResponse parse payload"
    if "find_fence payload = None" for payload
    using jsonStr_fenced [OF that] by (simp add: parseJsonResponse_def)
  from result topic' lessons' msg fence show ?thesis
    by auto
qed

lemma parse_response_without_lessons:
  "parseJsonResponse JSON_parse response_without_lessons =
     Inr (JObj [(''topic_description'', JStr ''About''), (''lessons'', JNum 5)])"
  by code_simp

lemma find_fence_response_without_lessons: "find_fence response_without_lessons = None"
  by code_simp

theorem breakdown_rejection_witness:
  "fst (breakdownTopic JSON_parse (\<lambda>n. Answers (Some response_without_lessons)) 1 five_lessons) =
     Inl (OtherError ''Error'' ''Invalid response: missing lessons array'') \<and>
   find_topic 1
     (snd (breakdownTopic JSON_parse (\<lambda>n. Answers (Some response_without_lessons)) 1
            five_lessons)) =
     Some (example_topic\<lparr>topic_status := Failed,
             topic_last_error := Some ''Invalid response: missing lessons array''\<rparr>) \<and>
   lessons (snd (breakdownTopic JSON_parse (\<lambda>n. Answers (Some response_without_lessons)) 1
                  five_lessons)) =
     lessons five_lessons \<and>
   parseJsonResponse JSON_parse (fenced response_without_lessons) =
     parseJsonResponse JSON_parse response_without_lessons"
proof -
  let ?svc = "\<lambda>n::nat. Answers (Some response_without_lessons)"
  let ?w = "breakdown_started 1 five_lessons"
  let ?v = "JObj [(''topic_description'', JStr ''About''), (''lessons'', JNum 5)]"
  have t: "find_topic 1 five_lessons = Some example_topic"
    by (simp add: find_topic_def five_lessons_def example_topic_def example_world_def)
  have k: "isApiKeyConfigured five_lessons"
    by (simp add: isApiKeyConfigured_def five_lessons_def example_world_def)
  have "callOpenAI ?svc ''topic_breakdown'' default_options ?w =
      (Inr response_without_lessons, after_calls 1 ?w)"
  proof (rule callOpenAI_first_success)
    show "''topic_breakdown'' \<in> set (prompt_names ?w)"
      by (simp add: breakdown_started_def notify_def update_topic_def five_lessons_def
          example_world_def)
    show "client_ready ?w"
      by (simp add: client_ready_def breakdown_started_def notify_def update_topic_def
          five_lessons_def example_world_def)
    show "?svc (length (trace ?w)) = Answers (Some response_without_lessons)"
      by simp
    show "response_without_lessons \<noteq> []"
      by (simp add: response_without_lessons_def)
  qed
  moreover have "\<forall>items. get_prop ?v ''lessons'' \<noteq> Inr (Some (JArr items))"
    by simp
  ultimately have
    "(\<exists>e. fst (breakdownTopic JSON_parse ?svc 1 five_lessons) = Inl e \<and>
        find_topic 1 (snd (breakdownTopic JSON_parse ?svc 1 five_lessons)) =
          Some (example_topic\<lparr>topic_status := Failed,
                  topic_last_error := Some (message (categorizeError e))\<rparr>) \<and>
        (?v \<noteq> JNull \<longrightarrow> e = OtherError ''Error'' ''Invalid response: missing lessons array'')) \<and>
     lessons (snd (breakdownTopic JSON_parse ?svc 1 five_lessons)) = lessons five_lessons \<and>
     (\<forall>payload. find_fence payload = None \<longrightarrow>
        parseJsonResponse JSON_parse (fenced payload) = parseJsonResponse JSON_parse payload)"
    using breakdown_rejection [OF t k _ parse_response_without_lessons] by blast
  then show ?thesis
    using find_fence_response_without_lessons by (auto simp: starts_with_def Let_def)
qed

text \<open>
  Claim C5 as written fails for a payload that contains three back quotes in a row, here
  inside a string of the JSON text: alone it parses, while inside a \<^verbatim>\<open>```json\<close>
  fence the expression stops at the inner back quotes and the parse fails.
\<close>

theorem fenced_payload_counterexample:
  "parseJsonResponse JSON_parse (fenced payload_with_back_quotes) \<noteq>
   parseJsonResponse JSON_parse payload_with_back_quotes"
proof -
  have "parseJsonResponse JSON_parse (fenced payload_with_back_quotes) =
      Inl (OpenAIAPIError ''Failed to parse JSON response from OpenAI'' 500 False)"
    by code_simp
  moreover have "parseJsonResponse JSON_parse payload_with_back_quotes =
      Inr (JObj [(''lessons'', JArr []), (''topic_description'', JStr ''```'')])"
    by code_simp
  ultimately show ?thesis by simp
qed

section \<open>Properties of generating one lesson\<close>

lemma calls_only_refl [simp]: "calls_only w w"
proof -
  have "w = w\<lparr>openaiClient := openaiClient w, trace := trace w\<rparr>"
    by simp
  then show ?thesis unfolding calls_only_def by blast
qed

lemma calls_only_trans: "calls_only w w' \<Longrightarrow> calls_only w' w'' \<Longrightarrow> calls_only w w''"
  unfolding calls_only_def by force

lemma calls_only_fields:
  assumes "calls_only w w'"
  shows "lessons w' = lessons w" and "topics w' = topics w" and "files w' = files w"
    and "lesson_seq w' = lesson_seq w" and "progress_log w' = progress_log w"
    and "prompt_names w' = prompt_names w" and "env_api_key w' = env_api_key w"
  using assms unfolding calls_only_def by auto

lemma callOpenAI_calls_only: "calls_only w (snd (callOpenAI svc promptName options w))"
  using callOpenAI_calls [of svc promptName options w] unfolding calls_only_def by blast

lemma expandContent_calls_only: "calls_only w (snd (expandContent svc existing w))"
proof -
  have "snd (expandContent svc existing w) =
      w\<lparr>openaiClient := openaiClient w, trace := trace w @ [Expansion]\<rparr>"
    by (simp add: expandContent_def Let_def split: reply.splits option.splits)
  then show ?thesis unfolding calls_only_def by blast
qed

lemma expand_loop_calls_only:
  "calls_only w (snd (expand_loop svc minWords mr a content wc w))"
proof (induction svc minWords mr a content wc w rule: expand_loop.induct)
  case (1 svc minWords mr a content wc w)
  obtain r w' where e: "expandContent svc content w = (r, w')"
    by (cases "expandContent svc content w")
  then have w': "calls_only w w'"
    using expandContent_calls_only [of w svc content] by simp
  show ?case
  proof (cases "a \<le> mr")
    case False
    then show ?thesis by (subst expand_loop.simps) simp
  next
    case True
    show ?thesis
    proof (cases r)
      case (Inl err)
      with True e w' show ?thesis
        by (subst expand_loop.simps) simp
    next
      case (Inr c)
      show ?thesis
      proof (cases "countWords c \<ge> minWords")
        case enough: True
        with True e w' Inr show ?thesis
          by (subst expand_loop.simps) simp
      next
        case short: False
        have "calls_only w' (snd (expand_loop svc minWords mr (a + 1) c (countWords c) w'))"
          using "1.IH" [OF True e [symmetric] Inr short] .
        with w' have "calls_only w
            (snd (expand_loop svc minWords mr (a + 1) c (countWords c) w'))"
          by (rule calls_only_trans)
        moreover have "expand_loop svc minWords mr a content wc w =
            expand_loop svc minWords mr (a + 1) c (countWords c) w'"
          using True e Inr short by (subst expand_loop.simps) simp
        ultimately show ?thesis by simp
      qed
    qed
  qed
qed

lemma generate_in_band_calls_only:
  "calls_only w (snd (generate_in_band svc promptName minWords maxWords mr w))"
proof -
  obtain r w1 where c: "callOpenAI svc promptName default_options w = (r, w1)"
    by (cases "callOpenAI svc promptName default_options w")
  then have w1: "calls_only w w1"
    using callOpenAI_calls_only [of w svc promptName default_options] by simp
  show ?thesis
  proof (cases r)
    case (Inl e)
    with c w1 show ?thesis by (simp add: generate_in_band_def)
  next
    case (Inr content)
    have "calls_only w (snd (expand_loop svc minWords mr 1 content (countWords content) w1))"
      using w1 expand_loop_calls_only by (rule calls_only_trans)
    with c w1 Inr show ?thesis by (simp add: generate_in_band_def)
  qed
qed

text \<open>
  Whatever \<^verbatim>\<open>generate_in_band\<close> returns is the count of the words of the text it
  returns.
\<close>

lemma expand_loop_count:
  assumes "expand_loop svc minWords mr a content wc w = (Inr (c, n), w')"
    and "wc = countWords content"
  shows "n = countWords c"
  using assms
proof (induction svc minWords mr a content wc w rule: expand_loop.induct)
  case (1 svc minWords mr a content wc w)
  show ?case
  proof (cases "a \<le> mr")
    case False
    with "1.prems" show ?thesis
      by (subst (asm) expand_loop.simps) auto
  next
    case True
    obtain r w1 where e: "expandContent svc content w = (r, w1)"
      by (cases "expandContent svc content w")
    show ?thesis
    proof (cases r)
      case (Inl err)
      with True e "1.prems"(1) show ?thesis
        by (subst (asm) expand_loop.simps) simp
    next
      case (Inr c1)
      show ?thesis
      proof (cases "countWords c1 \<ge> minWords")
        case enough: True
        with True e Inr "1.prems"(1) show ?thesis
          by (subst (asm) expand_loop.simps) auto
      next
        case short: False
        have "expand_loop svc minWords mr (a + 1) c1 (countWords c1) w1 = (Inr (c, n), w')"
          using True e Inr short "1.prems"(1) by (subst (asm) expand_loop.simps) simp
        then show ?thesis
          using "1.IH" [OF True e [symmetric] Inr short] by simp
      qed
    qed
  qed
qed

lemma generate_in_band_count:
  assumes "generate_in_band svc promptName minWords maxWords mr w = (Inr (c, n), w')"
  shows "n = countWords c"
proof -
  obtain r w1 where call: "callOpenAI svc promptName default_options w = (r, w1)"
    by (cases "callOpenAI svc promptName default_options w")
  show ?thesis
  proof (cases r)
    case (Inl e)
    with call assms show ?thesis by (simp add: generate_in_band_def)
  next
    case (Inr content)
    show ?thesis
    proof (cases "countWords content < minWords")
      case True
      with call Inr assms have
        "expand_loop svc minWords mr 1 content (countWords content) w1 = (Inr (c, n), w')"
        by (simp add: generate_in_band_def)
      then show ?thesis by (rule expand_loop_count) simp
    next
      case False
      with call Inr assms show ?thesis
        by (auto simp: generate_in_band_def split: if_splits)
    qed
  qed
qed

lemma notify_fields [simp]:
  "topics (notify ev w) = topics w" "files (notify ev w) = files w"
  "lesson_seq (notify ev w) = lesson_seq w" "trace (notify ev w) = trace w"
  by (simp_all add: notify_def)

lemma update_lesson_fields [simp]:
  "lessons (update_lesson i f w) = map (\<lambda>l. if lesson_id l = i then f l else l) (lessons w)"
  "topics (update_lesson i f w) = topics w" "files (update_lesson i f w) = files w"
  "lesson_seq (update_lesson i f w) = lesson_seq w"
  by (simp_all add: update_lesson_def update_lessons_def)

lemma update_topic_fields [simp]:
  "files (update_topic i f w) = files w" "lesson_seq (update_topic i f w) = lesson_seq w"
  by (simp_all add: update_topic_def)

lemma writeFile_fields [simp]:
  "lessons (writeFile p c w) = lessons w" "topics (writeFile p c w) = topics w"
  "files (writeFile p c w) = (p, c) # files w" "lesson_seq (writeFile p c w) = lesson_seq w"
  by (simp_all add: writeFile_def)

lemma generate_in_band_fields:
  assumes "generate_in_band svc promptName minWords maxWords mr w = (r, w')"
  shows "lessons w' = lessons w" and "topics w' = topics w" and "files w' = files w"
    and "lesson_seq w' = lesson_seq w"
  using generate_in_band_calls_only [of w svc promptName minWords maxWords mr] assms
    calls_only_fields [of w w']
  by simp_all

text \<open>
  The effect of \<^verbatim>\<open>generateSingleLesson\<close>: the rows with the id of the lesson change
  as \<open>lesson_effect\<close> says, every other row and the topics stay, and files are added.
\<close>

lemma generateSingleLesson_effect:
  assumes "generateSingleLesson svc topic lesson w = (success, w')"
  shows "\<exists>change written.
     lesson_effect topic lesson success change written \<and>
     lessons w' = map (\<lambda>l. if lesson_id l = lesson_id lesson then change l else l) (lessons w) \<and>
     files w' = written @ files w \<and> topics w' = topics w \<and> lesson_seq w' = lesson_seq w"
proof -
  let ?i = "lesson_id lesson"
  let ?g = "\<lambda>l. l\<lparr>lesson_status := Generating, lesson_last_error := None\<rparr>"
  let ?w0 = "notify (LessonStart (lesson_number lesson) (lesson_title lesson) ContentStep)
      (update_lesson ?i ?g w)"
  obtain r1 w1 where g1: "generateLessonContent svc 2 ?w0 = (r1, w1)"
    by (cases "generateLessonContent svc 2 ?w0")
  have f1: "lessons w1 = map (\<lambda>l. if lesson_id l = ?i then ?g l else l) (lessons w)"
    "topics w1 = topics w" "files w1 = files w" "lesson_seq w1 = lesson_seq w"
    using generate_in_band_fields [OF g1 [unfolded generateLessonContent_def]] by simp_all
  show ?thesis
  proof (cases r1)
    case (Inl e)
    let ?m = "message (categorizeError e)"
    let ?change = "\<lambda>l. l\<lparr>lesson_status := Failed, lesson_last_error := Some ?m,
        retry_count := Some (retries lesson + 1), file_path := file_path l,
        word_count := word_count l\<rparr>"
    have res: "success = False" "w' = snd (lesson_failed lesson e w1)"
      using assms g1 Inl by (simp_all add: generateSingleLesson_def lesson_failed_def)
    have "lesson_effect topic lesson success ?change []"
      unfolding lesson_effect_def res(1)
      by (simp del: surjective) (rule exI [of _ ?m], rule exI [of _ file_path],
          rule exI [of _ word_count], simp)
    moreover have "lessons w' =
        map (\<lambda>l. if lesson_id l = ?i then ?change l else l) (lessons w)"
      by (simp add: res(2) lesson_failed_def f1)
    moreover have "files w' = [] @ files w" "topics w' = topics w" "lesson_seq w' = lesson_seq w"
      by (simp_all add: res(2) lesson_failed_def f1)
    ultimately show ?thesis by blast
  next
    case (Inr content1)
    obtain body n where content1: "content1 = (body, n)"
      by (cases content1)
    have n: "n = countWords body"
      using g1 Inr content1 generate_in_band_count
      by (simp add: generateLessonContent_def)
    let ?lf = "lesson_file topic lesson"
    let ?pf = "podcast_file topic lesson"
    let ?b = "\<lambda>l. l\<lparr>file_path := Some ?lf, word_count := n\<rparr>"
    let ?w2 = "notify (LessonStart (lesson_number lesson) (lesson_title lesson) PodcastStep)
        (notify (LessonContentComplete (lesson_number lesson) n)
          (update_lesson ?i ?b (writeFile ?lf body w1)))"
    obtain r3 w3 where g3: "generatePodcastSummary svc 2 ?w2 = (r3, w3)"
      by (cases "generatePodcastSummary svc 2 ?w2")
    have f3: "lessons w3 = map (\<lambda>l. if lesson_id l = ?i then ?b (?g l) else l) (lessons w)"
      "topics w3 = topics w" "files w3 = (?lf, body) # files w" "lesson_seq w3 = lesson_seq w"
      using generate_in_band_fields [OF g3 [unfolded generatePodcastSummary_def]]
      by (simp_all add: f1 comp_def if_distrib cong: if_cong)
    show ?thesis
    proof (cases r3)
      case (Inl e)
      let ?m = "message (categorizeError e)"
      let ?change = "\<lambda>l. l\<lparr>lesson_status := Failed, lesson_last_error := Some ?m,
          retry_count := Some (retries lesson + 1), file_path := Some ?lf,
          word_count := n\<rparr>"
      have res: "success = False" "w' = snd (lesson_failed lesson e w3)"
        using assms g1 Inr content1 g3 Inl
        by (simp_all add: generateSingleLesson_def lesson_failed_def)
      have "lesson_effect topic lesson success ?change [(?lf, body)]"
        unfolding lesson_effect_def res(1)
        by (simp del: surjective) (rule exI [of _ ?m], rule exI [of _ "\<lambda>l. Some ?lf"],
            rule exI [of _ "\<lambda>l. n"], simp)
      moreover have "lessons w' =
          map (\<lambda>l. if lesson_id l = ?i then ?change l else l) (lessons w)"
        by (simp add: res(2) lesson_failed_def f3 comp_def if_distrib cong: if_cong)
      moreover have "files w' = [(?lf, body)] @ files w" "topics w' = topics w"
        "lesson_seq w' = lesson_seq w"
        by (simp_all add: res(2) lesson_failed_def f3)
      ultimately show ?thesis by blast
    next
      case (Inr content3)
      obtain podcast k where content3: "content3 = (podcast, k)"
        by (cases content3)
      have k: "k = countWords podcast"
        using g3 Inr content3 generate_in_band_count
        by (simp add: generatePodcastSummary_def)
      let ?change = "\<lambda>l. l\<lparr>lesson_status := Completed, lesson_last_error := None,
          file_path := Some ?lf, word_count := countWords body,
          podcast_file_path := Some ?pf, podcast_word_count := countWords podcast\<rparr>"
      let ?w' = "notify (LessonComplete (lesson_number lesson))
          (notify (LessonPodcastComplete (lesson_number lesson) k)
            (update_lesson ?i
              (\<lambda>l. l\<lparr>podcast_file_path := Some ?pf, podcast_word_count := k,
                     lesson_status := Completed, lesson_last_error := None\<rparr>)
              (writeFile ?pf podcast w3)))"
      have res: "success = True" "w' = ?w'"
        using assms g1 \<open>r1 = Inr content1\<close> content1 g3 Inr content3
        by (simp_all add: generateSingleLesson_def)
      have "lesson_effect topic lesson success ?change [(?pf, podcast), (?lf, body)]"
        unfolding lesson_effect_def res(1) by (simp del: surjective)
      moreover have "lessons w' =
          map (\<lambda>l. if lesson_id l = ?i then ?change l else l) (lessons w)"
        by (simp add: res(2) f3 n k comp_def if_distrib cong: if_cong)
      moreover have "files w' = [(?pf, podcast), (?lf, body)] @ files w" "topics w' = topics w"
        "lesson_seq w' = lesson_seq w"
        by (simp_all add: res(2) f3)
      ultimately show ?thesis by blast
    qed
  qed
qed

lemma same_id_same_row:
  assumes "distinct (map lesson_id ls)" and "l \<in> set ls" and "l' \<in> set ls"
    and "lesson_id l = lesson_id l'"
  shows "l = l'"
  using assms by (meson distinct_map inj_on_def)

lemma readFile_append: "readFile w p \<noteq> None \<Longrightarrow> files w' = written @ files w \<Longrightarrow> readFile w' p \<noteq> None"
  by (auto simp: readFile_def map_add_def split: option.splits)

lemma has_artifacts_append:
  assumes "has_artifacts w l" and "files w' = written @ files w"
  shows "has_artifacts w' l"
  using assms unfolding has_artifacts_def by (meson readFile_append)

text \<open>
  One run of \<^verbatim>\<open>generateSingleLesson\<close> for a row of a table with distinct ids: the row
  is replaced by a row \<open>new\<close>, completed with both artifacts or failed with the retry
  counter raised by one, and nothing else changes but the files added.
\<close>

lemma single_step:
  assumes "distinct (map lesson_id (lessons w))" and "lesson \<in> set (lessons w)"
    and "generateSingleLesson svc topic lesson w = (success, w1)"
  obtains new written where
    "lessons w1 = map (\<lambda>l. if l = lesson then new else l) (lessons w)"
    "lesson_id new = lesson_id lesson" "of_topic new = of_topic lesson"
    "success \<and> lesson_status new = Completed \<and> retry_count new = retry_count lesson \<and>
       has_artifacts w1 new \<or>
     \<not> success \<and> lesson_status new = Failed \<and> retry_count new = Some (retries lesson + 1)"
    "topics w1 = topics w" "lesson_seq w1 = lesson_seq w" "files w1 = written @ files w"
proof -
  obtain change written where eff: "lesson_effect topic lesson success change written"
    and rows: "lessons w1 =
      map (\<lambda>l. if lesson_id l = lesson_id lesson then change l else l) (lessons w)"
    and rest: "files w1 = written @ files w" "topics w1 = topics w" "lesson_seq w1 = lesson_seq w"
    using generateSingleLesson_effect [OF assms(3)] by blast
  have same: "lesson_id l = lesson_id lesson \<longleftrightarrow> l = lesson" if "l \<in> set (lessons w)" for l
    using same_id_same_row [OF assms(1) that assms(2)] by blast
  have rows': "lessons w1 = map (\<lambda>l. if l = lesson then change lesson else l) (lessons w)"
    unfolding rows by (rule map_cong) (auto simp: same)
  have ids: "lesson_id (change lesson) = lesson_id lesson"
    "of_topic (change lesson) = of_topic lesson"
    using eff by (auto simp: lesson_effect_def split: if_splits)
  have outcome: "success \<and> lesson_status (change lesson) = Completed \<and>
      retry_count (change lesson) = retry_count lesson \<and> has_artifacts w1 (change lesson) \<or>
    \<not> success \<and> lesson_status (change lesson) = Failed \<and>
      retry_count (change lesson) = Some (retries lesson + 1)"
  proof (cases success)
    case True
    with eff obtain body podcast where
      "written = [(podcast_file topic lesson, podcast), (lesson_file topic lesson, body)]"
      "change = (\<lambda>l. l\<lparr>lesson_status := Completed, lesson_last_error := None,
          file_path := Some (lesson_file topic lesson), word_count := countWords body,
          podcast_file_path := Some (podcast_file topic lesson),
          podcast_word_count := countWords podcast\<rparr>)"
      by (auto simp: lesson_effect_def)
    with True rest(1) show ?thesis
      by (simp add: has_artifacts_def readFile_def)
  next
    case False
    with eff show ?thesis
      by (auto simp: lesson_effect_def)
  qed
  from rows' ids outcome rest(2,3,1) show ?thesis
    by (rule that)
qed

lemma replaced_set:
  assumes "lesson \<in> set ls"
  shows "set (map (\<lambda>l. if l = lesson then new else l) ls) = insert new (set ls - {lesson})"
  using assms by auto

lemma replaced_ids:
  assumes "lesson_id new = lesson_id lesson"
  shows "map lesson_id (map (\<lambda>l. if l = lesson then new else l) ls) = map lesson_id ls"
  using assms by (induction ls) auto

section \<open>Properties of generating a list of lessons\<close>

lemma runnable_step:
  assumes "runnable w (lesson # rest)"
    and "generateSingleLesson svc topic lesson w = (success, w1)"
  shows "runnable w1 rest"
proof -
  from assms(1) have d: "distinct (map lesson_id (lessons w))"
    and m: "lesson \<in> set (lessons w)" and sub: "set rest \<subseteq> set (lessons w)"
    and dl: "distinct (map lesson_id (lesson # rest))"
    by (simp_all add: runnable_def)
  from d m assms(2) obtain new written where
    rows: "lessons w1 = map (\<lambda>l. if l = lesson then new else l) (lessons w)"
    and id: "lesson_id new = lesson_id lesson"
    by (rule single_step)
  have "lesson \<notin> set rest"
    using dl by auto
  with sub have "set rest \<subseteq> set (lessons w1)"
    unfolding rows replaced_set [OF m] by auto
  moreover have "distinct (map lesson_id (lessons w1))"
    unfolding rows replaced_ids [OF id] by (rule d)
  ultimately show ?thesis
    using dl by (simp add: runnable_def)
qed

text \<open>A row that is not in the list stays as it is.\<close>

lemma run_unchanged:
  assumes "runnable w ps" and "l \<in> set (lessons w)" and "l \<notin> set ps"
  shows "l \<in> set (lessons (run_lessons svc topic ps w))"
  using assms
proof (induction ps arbitrary: w)
  case Nil
  then show ?case by simp
next
  case (Cons lesson rest)
  obtain success w1 where g: "generateSingleLesson svc topic lesson w = (success, w1)"
    by (cases "generateSingleLesson svc topic lesson w")
  from Cons.prems(1) have d: "distinct (map lesson_id (lessons w))"
    and m: "lesson \<in> set (lessons w)"
    by (simp_all add: runnable_def)
  from d m g obtain new written where
    rows: "lessons w1 = map (\<lambda>l. if l = lesson then new else l) (lessons w)"
    by (rule single_step)
  have "l \<in> set (lessons w1)"
    unfolding rows replaced_set [OF m] using Cons.prems(2,3) by auto
  moreover have "runnable w1 rest"
    using Cons.prems(1) g by (rule runnable_step)
  ultimately have "l \<in> set (lessons (run_lessons svc topic rest w1))"
    using Cons.prems(3) by (intro Cons.IH) auto
  with g show ?case by simp
qed

text \<open>
  A row of the list ends completed with its retry counter unchanged, or failed with its
  retry counter raised by one.
\<close>

lemma run_processed:
  assumes "runnable w ps" and "l \<in> set ps"
  shows "\<exists>l' \<in> set (lessons (run_lessons svc topic ps w)).
     lesson_id l' = lesson_id l \<and> of_topic l' = of_topic l \<and>
     (lesson_status l' = Completed \<and> retry_count l' = retry_count l \<or>
      lesson_status l' = Failed \<and> retry_count l' = Some (retries l + 1))"
  using assms
proof (induction ps arbitrary: w)
  case Nil
  then show ?case by simp
next
  case (Cons lesson rest)
  obtain success w1 where g: "generateSingleLesson svc topic lesson w = (success, w1)"
    by (cases "generateSingleLesson svc topic lesson w")
  from Cons.prems(1) have d: "distinct (map lesson_id (lessons w))"
    and m: "lesson \<in> set (lessons w)"
    and dl: "distinct (map lesson_id (lesson # rest))"
    by (simp_all add: runnable_def)
  from d m g obtain new written where
    rows: "lessons w1 = map (\<lambda>l. if l = lesson then new else l) (lessons w)"
    and id: "lesson_id new = lesson_id lesson" and tp: "of_topic new = of_topic lesson"
    and outcome: "success \<and> lesson_status new = Completed \<and>
        retry_count new = retry_count lesson \<and> has_artifacts w1 new \<or>
      \<not> success \<and> lesson_status new = Failed \<and> retry_count new = Some (retries lesson + 1)"
    by (rule single_step)
  have r1: "runnable w1 rest"
    using Cons.prems(1) g by (rule runnable_step)
  show ?case
  proof (cases "l = lesson")
    case True
    have "new \<in> set (lessons w1)"
      unfolding rows replaced_set [OF m] by simp
    moreover have "new \<notin> set rest"
      using dl id by (auto simp: image_iff)
    ultimately have "new \<in> set (lessons (run_lessons svc topic rest w1))"
      using r1 by (intro run_unchanged)
    with g id tp outcome True show ?thesis
      by auto
  next
    case False
    with Cons.prems(2) have "l \<in> set rest"
      by simp
    with r1 show ?thesis
      using Cons.IH g by simp
  qed
qed

text \<open>
  Every row of the table afterwards is a row that was there and is not in the list, or
  is completed or failed.
\<close>

lemma run_rows:
  assumes "runnable w ps" and "l' \<in> set (lessons (run_lessons svc topic ps w))"
  shows "l' \<in> set (lessons w) \<and> l' \<notin> set ps \<or>
     lesson_status l' = Completed \<or> lesson_status l' = Failed"
  using assms
proof (induction ps arbitrary: w)
  case Nil
  then show ?case by simp
next
  case (Cons lesson rest)
  obtain success w1 where g: "generateSingleLesson svc topic lesson w = (success, w1)"
    by (cases "generateSingleLesson svc topic lesson w")
  from Cons.prems(1) have d: "distinct (map lesson_id (lessons w))"
    and m: "lesson \<in> set (lessons w)"
    by (simp_all add: runnable_def)
  from d m g obtain new written where
    rows: "lessons w1 = map (\<lambda>l. if l = lesson then new else l) (lessons w)"
    and outcome: "success \<and> lesson_status new = Completed \<and>
        retry_count new = retry_count lesson \<and> has_artifacts w1 new \<or>
      \<not> success \<and> lesson_status new = Failed \<and> retry_count new = Some (retries lesson + 1)"
    by (rule single_step)
  have r1: "runnable w1 rest"
    using Cons.prems(1) g by (rule runnable_step)
  have "l' \<in> set (lessons (run_lessons svc topic rest w1))"
    using Cons.prems(2) g by simp
  with r1 have "l' \<in> set (lessons w1) \<and> l' \<notin> set rest \<or>
      lesson_status l' = Completed \<or> lesson_status l' = Failed"
    by (rule Cons.IH)
  then show ?case
    unfolding rows replaced_set [OF m] using outcome by auto
qed

text \<open>The topics are not touched, and the rows keep their ids and topics.\<close>

lemma run_topics: "topics (run_lessons svc topic ps w) = topics w"
proof (induction ps arbitrary: w)
  case Nil
  then show ?case by simp
next
  case (Cons lesson rest)
  obtain success w1 where g: "generateSingleLesson svc topic lesson w = (success, w1)"
    by (cases "generateSingleLesson svc topic lesson w")
  then have "topics w1 = topics w"
    using generateSingleLesson_effect by blast
  with Cons.IH [of w1] g show ?case by simp
qed

lemma effect_of_topic:
  assumes "lesson_effect topic lesson success change written"
  shows "of_topic (change l) = of_topic l"
  using assms by (auto simp: lesson_effect_def split: if_splits)

lemma run_of_topic: "map of_topic (lessons (run_lessons svc topic ps w)) = map of_topic (lessons w)"
proof (induction ps arbitrary: w)
  case Nil
  then show ?case by simp
next
  case (Cons lesson rest)
  obtain success w1 where g: "generateSingleLesson svc topic lesson w = (success, w1)"
    by (cases "generateSingleLesson svc topic lesson w")
  then obtain change written where "lesson_effect topic lesson success change written"
    and "lessons w1 = map (\<lambda>l. if lesson_id l = lesson_id lesson then change l else l) (lessons w)"
    using generateSingleLesson_effect by blast
  then have "map of_topic (lessons w1) = map of_topic (lessons w)"
    by (simp add: effect_of_topic comp_def if_distrib cong: if_cong)
  with Cons.IH [of w1] g show ?case by simp
qed

text \<open>Generating eligible rows keeps a state consistent.\<close>

lemma single_step_consistent:
  assumes "consistent w" and "lesson \<in> set (lessons w)" and "eligible lesson"
    and "generateSingleLesson svc topic lesson w = (success, w1)"
  shows "consistent w1"
proof -
  from assms(1) have d: "distinct (map lesson_id (lessons w))"
    by (simp add: consistent_def)
  from d assms(2,4) obtain new written where
    rows: "lessons w1 = map (\<lambda>l. if l = lesson then new else l) (lessons w)"
    and id: "lesson_id new = lesson_id lesson"
    and outcome: "success \<and> lesson_status new = Completed \<and>
        retry_count new = retry_count lesson \<and> has_artifacts w1 new \<or>
      \<not> success \<and> lesson_status new = Failed \<and> retry_count new = Some (retries lesson + 1)"
    and seq: "lesson_seq w1 = lesson_seq w" and fs: "files w1 = written @ files w"
    by (rule single_step)
  have below: "retries lesson < MAX_LESSON_RETRIES"
    using assms(3) by (simp add: eligible_def)
  have old: "lesson_id l < lesson_seq w1 \<and> retries l \<le> MAX_LESSON_RETRIES \<and>
      (lesson_status l = Generating \<longrightarrow> retries l < MAX_LESSON_RETRIES) \<and>
      (lesson_status l = Completed \<longrightarrow> retries l < MAX_LESSON_RETRIES \<and> has_artifacts w1 l)"
    if "l \<in> set (lessons w)" for l
    using assms(1) that has_artifacts_append [OF _ fs]
    by (auto simp: consistent_def seq)
  have new: "lesson_id new < lesson_seq w1 \<and> retries new \<le> MAX_LESSON_RETRIES \<and>
      (lesson_status new = Generating \<longrightarrow> retries new < MAX_LESSON_RETRIES) \<and>
      (lesson_status new = Completed \<longrightarrow> retries new < MAX_LESSON_RETRIES \<and> has_artifacts w1 new)"
    using outcome below old [OF assms(2)] id
    by (auto simp: retries_def)
  have "distinct (map lesson_id (lessons w1))"
    unfolding rows replaced_ids [OF id] by (rule d)
  moreover have "\<forall>l \<in> set (lessons w1).
      lesson_id l < lesson_seq w1 \<and> retries l \<le> MAX_LESSON_RETRIES \<and>
      (lesson_status l = Generating \<longrightarrow> retries l < MAX_LESSON_RETRIES) \<and>
      (lesson_status l = Completed \<longrightarrow> retries l < MAX_LESSON_RETRIES \<and> has_artifacts w1 l)"
    unfolding rows replaced_set [OF assms(2)] using old new by blast
  ultimately show ?thesis
    by (simp add: consistent_def)
qed

lemma run_consistent:
  assumes "consistent w" and "set ps \<subseteq> set (lessons w)" and "distinct (map lesson_id ps)"
    and "\<forall>l \<in> set ps. eligible l"
  shows "consistent (run_lessons svc topic ps w)"
  using assms
proof (induction ps arbitrary: w)
  case Nil
  then show ?case by simp
next
  case (Cons lesson rest)
  obtain success w1 where g: "generateSingleLesson svc topic lesson w = (success, w1)"
    by (cases "generateSingleLesson svc topic lesson w")
  have d: "distinct (map lesson_id (lessons w))"
    using Cons.prems(1) by (simp add: consistent_def)
  have m: "lesson \<in> set (lessons w)" and e: "eligible lesson"
    using Cons.prems(2,4) by simp_all
  have "runnable w (lesson # rest)"
    unfolding runnable_def using d Cons.prems(2,3) by blast
  then have r1: "runnable w1 rest"
    using g by (rule runnable_step)
  have c1: "consistent w1"
    using Cons.prems(1) m e g by (rule single_step_consistent)
  have "consistent (run_lessons svc topic rest w1)"
  proof (rule Cons.IH [OF c1])
    show "set rest \<subseteq> set (lessons w1)"
      using r1 by (simp add: runnable_def)
    show "distinct (map lesson_id rest)"
      using r1 by (simp add: runnable_def)
    show "\<forall>l \<in> set rest. eligible l"
      using Cons.prems(4) by simp
  qed
  with g show ?case by simp
qed

text \<open>Both loops generate a list of eligible rows.\<close>

lemma generateAll_loop_run:
  "\<exists>ps qs. filter eligible ls = ps @ qs \<and>
     snd (generateAll_loop svc onProgress topic ls failedCount w) = run_lessons svc topic ps w \<and>
     (\<forall>n. fst (generateAll_loop svc onProgress topic ls failedCount w) = Inr n \<longrightarrow> qs = []) \<and>
     (onProgress = None \<longrightarrow>
        (\<exists>n. fst (generateAll_loop svc onProgress topic ls failedCount w) = Inr n))"
proof (induction ls arbitrary: failedCount w)
  case Nil
  then show ?case by simp
next
  case (Cons lesson rest)
  show ?case
  proof (cases "eligible lesson")
    case False
    then have step: "generateAll_loop svc onProgress topic (lesson # rest) failedCount w =
        generateAll_loop svc onProgress topic rest
          (if lesson_status lesson = Completed then failedCount else failedCount + 1) w"
      by (auto simp: eligible_def)
    have same: "filter eligible (lesson # rest) = filter eligible rest"
      using False by simp
    show ?thesis
      unfolding step same by (rule Cons.IH)
  next
    case True
    then have go: "lesson_status lesson \<noteq> Completed" "\<not> retries lesson \<ge> MAX_LESSON_RETRIES"
      by (simp_all add: eligible_def)
    show ?thesis
    proof (cases "case onProgress of None \<Rightarrow> None | Some f \<Rightarrow> f (lesson_number lesson)")
      case (Some error)
      then have thrown: "generateAll_loop svc onProgress topic (lesson # rest) failedCount w =
          (Inl error, w)"
        using go by simp
      have callback: "onProgress \<noteq> None"
        using Some by (cases onProgress) simp_all
      have "filter eligible (lesson # rest) = [] @ filter eligible (lesson # rest) \<and>
          snd (generateAll_loop svc onProgress topic (lesson # rest) failedCount w) =
            run_lessons svc topic [] w \<and>
          (\<forall>n. fst (generateAll_loop svc onProgress topic (lesson # rest) failedCount w) = Inr n
             \<longrightarrow> filter eligible (lesson # rest) = []) \<and>
          (onProgress = None \<longrightarrow>
             (\<exists>n. fst (generateAll_loop svc onProgress topic (lesson # rest) failedCount w)
                = Inr n))"
        unfolding thrown using callback by simp
      then show ?thesis by blast
    next
      case None
      obtain success w1 where g: "generateSingleLesson svc topic lesson w = (success, w1)"
        by (cases "generateSingleLesson svc topic lesson w")
      let ?fc = "if success then failedCount else failedCount + 1"
      have step: "generateAll_loop svc onProgress topic (lesson # rest) failedCount w =
          generateAll_loop svc onProgress topic rest ?fc w1"
        using go None g by simp
      obtain ps qs where "filter eligible rest = ps @ qs"
        and "snd (generateAll_loop svc onProgress topic rest ?fc w1) = run_lessons svc topic ps w1"
        and "\<forall>n. fst (generateAll_loop svc onProgress topic rest ?fc w1) = Inr n \<longrightarrow> qs = []"
        and "onProgress = None \<longrightarrow>
          (\<exists>n. fst (generateAll_loop svc onProgress topic rest ?fc w1) = Inr n)"
        using Cons.IH [of ?fc w1] by blast
      then have "filter eligible (lesson # rest) = (lesson # ps) @ qs \<and>
          snd (generateAll_loop svc onProgress topic (lesson # rest) failedCount w) =
            run_lessons svc topic (lesson # ps) w \<and>
          (\<forall>n. fst (generateAll_loop svc onProgress topic (lesson # rest) failedCount w) = Inr n
             \<longrightarrow> qs = []) \<and>
          (onProgress = None \<longrightarrow>
             (\<exists>n. fst (generateAll_loop svc onProgress topic (lesson # rest) failedCount w)
                = Inr n))"
        unfolding step using True g by simp
      then show ?thesis by blast
    qed
  qed
qed

lemma retry_loop_run:
  "snd (retry_loop svc topic ls succeeded failed w) = run_lessons svc topic ls w"
proof (induction ls arbitrary: succeeded failed w)
  case Nil
  then show ?case by simp
next
  case (Cons lesson rest)
  then show ?case
    by (cases "generateSingleLesson svc topic lesson w") simp
qed

section \<open>Properties of the operations\<close>

lemma set_select_lessons:
  "set (select_lessons topicId w) = {l \<in> set (lessons w). of_topic l = topicId}"
  by (auto simp: select_lessons_def)

lemma distinct_ids_sorted:
  assumes "distinct (map lesson_id xs)"
  shows "distinct (map lesson_id (sort_key k (filter P xs)))"
proof -
  from assms have "distinct xs" and "inj_on lesson_id (set xs)"
    by (simp_all add: distinct_map)
  then have "distinct (sort_key k (filter P xs))"
    and "inj_on lesson_id (set (sort_key k (filter P xs)))"
    by (auto intro: inj_on_subset)
  then show ?thesis
    by (simp add: distinct_map)
qed

lemma distinct_ids_select:
  "distinct (map lesson_id (lessons w)) \<Longrightarrow> distinct (map lesson_id (select_lessons topicId w))"
  unfolding select_lessons_def by (rule distinct_ids_sorted)

lemma distinct_ids_prefix:
  assumes "filter P ls = ps @ qs" and "distinct (map lesson_id ls)"
  shows "distinct (map lesson_id ps)"
proof -
  have "distinct (map lesson_id (filter P ls))"
    using assms(2) by (rule distinct_map_filter)
  then show ?thesis
    unfolding assms(1) by simp
qed

text \<open>
  What the loop of \<^verbatim>\<open>generateAllContent\<close> does: it generates a first part \<open>ps\<close> of the
  eligible lessons of the topic, all of them unless the callback throws.
\<close>

lemma generateAll_loop_result:
  assumes "distinct (map lesson_id (lessons w))"
  obtains ps qs where
    "filter eligible (select_lessons topicId w) = ps @ qs" and "runnable w ps"
    and "\<forall>l \<in> set ps. eligible l \<and> of_topic l = topicId"
    and "snd (generateAll_loop svc onProgress topic (select_lessons topicId w) failedCount w) =
         run_lessons svc topic ps w"
    and "\<And>n. fst (generateAll_loop svc onProgress topic (select_lessons topicId w)
            failedCount w) = Inr n \<Longrightarrow> qs = []"
    and "onProgress = None \<Longrightarrow>
         \<exists>n. fst (generateAll_loop svc onProgress topic (select_lessons topicId w)
            failedCount w) = Inr n"
proof -
  let ?ls = "select_lessons topicId w"
  obtain ps qs where split: "filter eligible ?ls = ps @ qs"
    and run: "snd (generateAll_loop svc onProgress topic ?ls failedCount w) =
      run_lessons svc topic ps w"
    and all: "\<forall>n. fst (generateAll_loop svc onProgress topic ?ls failedCount w) = Inr n
      \<longrightarrow> qs = []"
    and none: "onProgress = None \<longrightarrow>
      (\<exists>n. fst (generateAll_loop svc onProgress topic ?ls failedCount w) = Inr n)"
    using generateAll_loop_run [of ?ls svc onProgress topic failedCount w] by blast
  have sub: "set ps \<subseteq> set (filter eligible ?ls)"
    unfolding split by simp
  then have mem: "\<forall>l \<in> set ps. eligible l \<and> of_topic l = topicId"
    by (auto simp: set_select_lessons)
  have "set ps \<subseteq> set (lessons w)"
    using sub by (auto simp: set_select_lessons)
  moreover have "distinct (map lesson_id ps)"
    using split distinct_ids_select [OF assms] by (rule distinct_ids_prefix)
  ultimately have "runnable w ps"
    using assms by (simp add: runnable_def)
  with split show ?thesis
    using mem run all none by (intro that) blast+
qed

text \<open>The same for the selection of \<^verbatim>\<open>retryFailedLessons\<close>.\<close>

lemma retry_selection_eligible:
  "l \<in> set (retry_selection topicId w) \<Longrightarrow>
   l \<in> set (lessons w) \<and> eligible l \<and> of_topic l = topicId"
  by (auto simp: retry_selection_def eligible_def retries_def MAX_LESSON_RETRIES_def
      split: option.splits)

lemma retry_selection_runnable:
  assumes "distinct (map lesson_id (lessons w))" and "lessons w0 = lessons w"
  shows "runnable w0 (retry_selection topicId w)"
proof -
  have "distinct (map lesson_id (retry_selection topicId w))"
    unfolding retry_selection_def using assms(1) by (rule distinct_ids_sorted)
  moreover have "set (retry_selection topicId w) \<subseteq> set (lessons w)"
    using retry_selection_eligible by blast
  ultimately show ?thesis
    using assms by (simp add: runnable_def)
qed

subsection \<open>Consistency of the reachable states\<close>

lemma consistent_same_rows:
  assumes "lessons w' = lessons w" and "lesson_seq w' = lesson_seq w" and "files w' = files w"
  shows "consistent w' = consistent w"
  using assms by (simp add: consistent_def has_artifacts_def readFile_def)

lemma consistent_update_topic [simp]: "consistent (update_topic i f w) = consistent w"
  by (rule consistent_same_rows) simp_all

lemma consistent_notify [simp]: "consistent (notify ev w) = consistent w"
  by (rule consistent_same_rows) simp_all

lemma consistent_calls_only: "calls_only w w' \<Longrightarrow> consistent w' = consistent w"
  by (rule consistent_same_rows) (simp_all add: calls_only_fields)

lemma consistent_finish [simp]:
  "consistent (generateAll_finish topicId n failedCount w) = consistent w"
  by (simp add: generateAll_finish_def Let_def)

lemma consistent_retry_finish [simp]: "consistent (retry_finish topicId w) = consistent w"
  by (simp add: retry_finish_def Let_def)

lemma consistent_catch:
  assumes "consistent w"
  shows "consistent (generateAll_catch topicId error w)"
proof -
  let ?sel = "\<lambda>l. of_topic l = topicId \<and> lesson_status l = Generating"
  let ?f = "\<lambda>l. l\<lparr>lesson_status := Failed,
      lesson_last_error := Some (message (categorizeError error))\<rparr>"
  let ?w = "update_lessons ?sel ?f w"
  have rows: "lessons ?w = map (\<lambda>l. if ?sel l then ?f l else l) (lessons w)"
    and same: "lesson_seq ?w = lesson_seq w" "files ?w = files w"
    by (simp_all add: update_lessons_def)
  have ids: "map lesson_id (lessons ?w) = map lesson_id (lessons w)"
    unfolding rows by (induction "lessons w") auto
  have "distinct (map lesson_id (lessons ?w))"
    unfolding ids using assms by (simp add: consistent_def)
  moreover have "\<forall>l \<in> set (lessons ?w).
      lesson_id l < lesson_seq ?w \<and> retries l \<le> MAX_LESSON_RETRIES \<and>
      (lesson_status l = Generating \<longrightarrow> retries l < MAX_LESSON_RETRIES) \<and>
      (lesson_status l = Completed \<longrightarrow> retries l < MAX_LESSON_RETRIES \<and> has_artifacts ?w l)"
    unfolding rows
    using assms by (auto simp: consistent_def has_artifacts_def readFile_def same retries_def)
  ultimately have "consistent ?w"
    by (simp add: consistent_def)
  moreover have "generateAll_catch topicId error w =
      notify (GenerationError (message (categorizeError error))
          (isRetryable (categorizeError error)))
        (update_lessons ?sel ?f
          (update_topic topicId
            (\<lambda>t. t\<lparr>topic_status := Failed,
                   topic_last_error := Some (message (categorizeError error))\<rparr>) w))"
    by (simp add: generateAll_catch_def)
  moreover have "update_lessons ?sel ?f (update_topic topicId g w) =
      update_topic topicId g (update_lessons ?sel ?f w)" for g
    by (simp add: update_lessons_def update_topic_def)
  ultimately show ?thesis by simp
qed

lemma generateAllContent_consistent:
  assumes "consistent w"
  shows "consistent (snd (generateAllContent svc onProgress topicId w))"
proof (cases "find_topic topicId w")
  case None
  with assms show ?thesis by (simp add: generateAllContent_def)
next
  case (Some topic)
  show ?thesis
  proof (cases "select_lessons topicId w = []")
    case True
    with assms Some show ?thesis by (simp add: generateAllContent_def)
  next
    case False
    have d: "distinct (map lesson_id (lessons w))"
      using assms by (simp add: consistent_def)
    let ?loop = "generateAll_loop svc onProgress topic (select_lessons topicId w) 0 w"
    from d obtain ps qs where "runnable w ps" and el: "\<forall>l \<in> set ps. eligible l \<and> of_topic l = topicId"
      and run: "snd ?loop = run_lessons svc topic ps w"
      by (rule generateAll_loop_result)
    then have "consistent (run_lessons svc topic ps w)"
      using assms by (intro run_consistent) (simp_all add: runnable_def)
    with run have c1: "consistent (snd ?loop)"
      by simp
    obtain r w1 where loop: "?loop = (r, w1)"
      by (cases ?loop)
    with c1 have "consistent w1"
      by simp
    then show ?thesis
      using Some False loop
      by (cases r) (simp_all add: generateAllContent_def consistent_catch)
  qed
qed

lemma retryFailedLessons_consistent:
  assumes "consistent w"
  shows "consistent (snd (retryFailedLessons svc topicId w))"
proof (cases "find_topic topicId w")
  case None
  with assms show ?thesis by (simp add: retryFailedLessons_def)
next
  case (Some topic)
  show ?thesis
  proof (cases "retry_selection topicId w = []")
    case True
    with assms Some show ?thesis by (simp add: retryFailedLessons_def)
  next
    case False
    let ?w0 = "update_topic topicId
        (\<lambda>t. t\<lparr>topic_status := Generating, topic_last_error := None\<rparr>) w"
    let ?ps = "retry_selection topicId w"
    have "runnable ?w0 ?ps"
      using assms by (intro retry_selection_runnable) (simp_all add: consistent_def)
    then have "consistent (run_lessons svc topic ?ps ?w0)"
      using assms retry_selection_eligible
      by (intro run_consistent) (auto simp: runnable_def)
    then have "consistent (snd (retry_loop svc topic ?ps 0 0 ?w0))"
      by (simp add: retry_loop_run)
    then show ?thesis
      using Some False
      by (cases "retry_loop svc topic ?ps 0 0 ?w0") (auto simp: retryFailedLessons_def)
  qed
qed

lemma insertLesson_consistent:
  assumes "consistent w" and "insertLesson topicId item w = Inr w'"
  shows "consistent w'"
proof -
  from assms(2) obtain n' t' d where
    w': "w' = w\<lparr>lessons := lessons w @
          [\<lparr>lesson_id = lesson_seq w, of_topic = topicId, lesson_number = n',
            lesson_title = t', lesson_description = d, file_path = None,
            podcast_file_path = None, word_count = 0, podcast_word_count = 0,
            lesson_status = Pending, retry_count = Some 0, lesson_last_error = None\<rparr>],
        lesson_seq := Suc (lesson_seq w)\<rparr>"
    by (auto simp: insertLesson_def split: sum.splits option.splits)
  have fresh: "lesson_seq w \<notin> lesson_id ` set (lessons w)"
    using assms(1) by (auto simp: consistent_def)
  show ?thesis
    unfolding w' using assms(1) fresh
    by (auto simp: consistent_def has_artifacts_def readFile_def retries_def MAX_LESSON_RETRIES_def
        less_Suc_eq)
qed

lemma insertLessons_consistent:
  "consistent w \<Longrightarrow> insertLessons topicId items w = Inr w' \<Longrightarrow> consistent w'"
proof (induction items arbitrary: w)
  case Nil
  then show ?case by simp
next
  case (Cons item items)
  then show ?case
    by (auto split: sum.splits intro: insertLesson_consistent)
qed

lemma insertLessons_state_consistent:
  "consistent w \<Longrightarrow> consistent (insertLessons_state topicId items w)"
proof (induction items arbitrary: w)
  case Nil
  then show ?case by simp
next
  case (Cons item items)
  then show ?case
    by (auto split: sum.splits intro: insertLesson_consistent)
qed

lemma insert_rows_consistent:
  assumes "consistent w"
  shows "consistent (snd (case insertLessons topicId items w of
        Inl e \<Rightarrow> (Inl e, insertLessons_state topicId items w)
      | Inr w3 \<Rightarrow> (Inr breakdown, notify ev w3)))"
  using assms insertLessons_consistent [of w topicId items]
    insertLessons_state_consistent [of w topicId items]
  by (cases "insertLessons topicId items w") simp_all

lemma breakdown_try_consistent:
  assumes "consistent w"
  shows "consistent (snd (breakdown_try parse svc topicId w))"
proof -
  obtain r w1 where call: "callOpenAI svc ''topic_breakdown'' default_options w = (r, w1)"
    by (cases "callOpenAI svc ''topic_breakdown'' default_options w")
  then have "calls_only w w1"
    using callOpenAI_calls_only [of w svc "''topic_breakdown''" default_options] by simp
  with assms have c1: "consistent w1"
    by (simp add: consistent_calls_only)
  show ?thesis
  proof (cases r)
    case (Inl e)
    with call c1 show ?thesis by (simp add: breakdown_try_def)
  next
    case response: (Inr response)
    show ?thesis
    proof (cases "parseJsonResponse parse response")
      case (Inl e)
      with call c1 response show ?thesis by (simp add: breakdown_try_def)
    next
      case parsed: (Inr breakdown)
      show ?thesis
      proof (cases "\<exists>items. get_prop breakdown ''lessons'' = Inr (Some (JArr items))")
        case False
        have "snd (breakdown_try parse svc topicId w) = w1"
          unfolding breakdown_try_def call
          using response parsed False
          by (auto split: sum.splits option.splits json.splits)
        with c1 show ?thesis by simp
      next
        case True
        then obtain items where items: "get_prop breakdown ''lessons'' = Inr (Some (JArr items))"
          by blast
        show ?thesis
        proof (cases "get_prop breakdown ''topic_description''")
          case (Inl e)
          with call c1 response parsed items show ?thesis by (simp add: breakdown_try_def)
        next
          case description: (Inr description)
          show ?thesis
          proof (cases "bind_text description")
            case (Inl e)
            with call c1 response parsed items description show ?thesis
              by (simp add: breakdown_try_def)
          next
            case (Inr d)
            let ?w2 = "update_topic topicId
                (\<lambda>t. t\<lparr>topic_description := d, lesson_count := length items\<rparr>) w1"
            have "consistent ?w2"
              using c1 by simp
            then have "consistent (snd (case insertLessons topicId items ?w2 of
                  Inl e \<Rightarrow> (Inl e, insertLessons_state topicId items ?w2)
                | Inr w3 \<Rightarrow> (Inr breakdown, notify (BreakdownComplete (length items)) w3)))"
              by (rule insert_rows_consistent)
            then show ?thesis
              unfolding breakdown_try_def call
              using response parsed items description Inr by (simp add: Let_def)
          qed
        qed
      qed
    qed
  qed
qed

lemma breakdownTopic_consistent:
  assumes "consistent w"
  shows "consistent (snd (breakdownTopic parse svc topicId w))"
proof -
  have "consistent (breakdown_started topicId w)"
    using assms by (simp add: breakdown_started_def)
  then have "consistent (snd (breakdown_try parse svc topicId (breakdown_started topicId w)))"
    by (rule breakdown_try_consistent)
  then show ?thesis
    using assms
    by (cases "breakdown_try parse svc topicId (breakdown_started topicId w)")
       (auto simp: breakdownTopic_def split: option.splits sum.splits)
qed

lemma createTopic_consistent: "consistent w \<Longrightarrow> consistent (createTopic newId t s w)"
  by (simp add: consistent_def createTopic_def has_artifacts_def readFile_def)

lemma deleteTopic_consistent: "consistent w \<Longrightarrow> consistent (deleteTopic topicId w)"
  by (auto simp: consistent_def deleteTopic_def has_artifacts_def readFile_def
      distinct_map_filter)

lemma interrupted_consistent:
  assumes "consistent w" and "lesson \<in> set (lessons w)"
    and "retries lesson < MAX_LESSON_RETRIES"
  shows "consistent (interrupted lesson path count w)"
proof -
  let ?f = "\<lambda>l. l\<lparr>lesson_status := Generating, lesson_last_error := None,
      file_path := path, word_count := count\<rparr>"
  have d: "distinct (map lesson_id (lessons w))"
    using assms(1) by (simp add: consistent_def)
  have same: "lesson_id l = lesson_id lesson \<longleftrightarrow> l = lesson" if "l \<in> set (lessons w)" for l
    using same_id_same_row [OF d that assms(2)] by blast
  have rows: "lessons (interrupted lesson path count w) =
      map (\<lambda>l. if l = lesson then ?f lesson else l) (lessons w)"
    unfolding interrupted_def update_lesson_fields by (rule map_cong) (auto simp: same)
  have other: "lesson_seq (interrupted lesson path count w) = lesson_seq w"
    "files (interrupted lesson path count w) = files w"
    by (simp_all add: interrupted_def)
  have id: "lesson_id (?f lesson) = lesson_id lesson"
    by simp
  show ?thesis
    unfolding consistent_def rows replaced_ids [OF id] replaced_set [OF assms(2)]
    using assms by (auto simp: consistent_def has_artifacts_def readFile_def other retries_def)
qed

text \<open>Every reachable state is consistent.\<close>

lemma reachable_consistent: "reachable w \<Longrightarrow> consistent w"
proof (induction rule: reachable.induct)
  case (initial w)
  then show ?case by (simp add: consistent_def)
next
  case (create w newId title' slug')
  then show ?case by (simp add: createTopic_consistent)
next
  case (delete w topicId)
  then show ?case by (simp add: deleteTopic_consistent)
next
  case (breakdown w parse svc topicId)
  then show ?case by (simp add: breakdownTopic_consistent)
next
  case (generate w svc onProgress topicId)
  then show ?case by (simp add: generateAllContent_consistent)
next
  case (retry w svc topicId)
  then show ?case by (simp add: retryFailedLessons_consistent)
next
  case (interrupt w lesson path count)
  then show ?case by (simp add: interrupted_consistent)
qed

section \<open>The pipeline claims\<close>

lemma lessons_finish [simp]:
  "lessons (generateAll_finish topicId n failedCount w) = lessons w"
  by (simp add: generateAll_finish_def Let_def)

lemma lessons_retry_finish [simp]: "lessons (retry_finish topicId w) = lessons w"
  by (simp add: retry_finish_def Let_def)


lemma find_topic_same_topics: "topics w' = topics w \<Longrightarrow> find_topic i w' = find_topic i w"
  by (simp add: find_topic_def)

lemma select_same_lessons: "lessons w' = lessons w \<Longrightarrow> select_lessons i w' = select_lessons i w"
  by (simp add: select_lessons_def)

lemma completed_count_all:
  "completed_count ls = length ls \<longleftrightarrow> (\<forall>l \<in> set ls. lesson_status l = Completed)"
proof (induction ls)
  case Nil
  then show ?case by (simp add: completed_count_def)
next
  case (Cons l ls)
  show ?case
  proof (cases "lesson_status l = Completed")
    case True
    with Cons show ?thesis
      by (simp add: completed_count_def)
  next
    case False
    have "completed_count ls \<le> length ls"
      unfolding completed_count_def by (rule length_filter_le)
    moreover have "completed_count (l # ls) = completed_count ls"
      using False by (simp add: completed_count_def)
    ultimately have "completed_count (l # ls) \<noteq> length (l # ls)"
      by simp
    with False show ?thesis
      by simp
  qed
qed





lemma reachable_one_pending: "reachable one_pending"
  unfolding one_pending_def
  by (intro reachable.breakdown reachable.create reachable.initial)
    (simp add: example_world_def)



section \<open>Completed lessons\<close>

lemma artifact_paths_differ: "lesson_file topic lesson \<noteq> podcast_file topic lesson"
  by (simp add: lesson_file_def podcast_file_def)

text \<open>
  A successful run of \<^verbatim>\<open>generateSingleLesson\<close> for a row of a table with distinct ids
  writes the body and then the podcast, and replaces the row by the completed row with
  both paths and the counts of the two texts written.
\<close>

lemma single_success:
  assumes "distinct (map lesson_id (lessons w))" and "lesson \<in> set (lessons w)"
    and "generateSingleLesson svc topic lesson w = (True, w')"
  shows "\<exists>body podcast.
     files w' = (podcast_file topic lesson, podcast) # (lesson_file topic lesson, body) # files w \<and>
     readFile w' (lesson_file topic lesson) = Some body \<and>
     readFile w' (podcast_file topic lesson) = Some podcast \<and>
     lessons w' =
       map (\<lambda>l. if l = lesson
                 then lesson\<lparr>lesson_status := Completed, lesson_last_error := None,
                        file_path := Some (lesson_file topic lesson),
                        word_count := countWords body,
                        podcast_file_path := Some (podcast_file topic lesson),
                        podcast_word_count := countWords podcast\<rparr>
                 else l) (lessons w)"
proof -
  obtain change written where eff: "lesson_effect topic lesson True change written"
    and rows: "lessons w' =
      map (\<lambda>l. if lesson_id l = lesson_id lesson then change l else l) (lessons w)"
    and written: "files w' = written @ files w"
    using generateSingleLesson_effect [OF assms(3)] by blast
  from eff obtain body podcast where
    w: "written = [(podcast_file topic lesson, podcast), (lesson_file topic lesson, body)]"
    and c: "change = (\<lambda>l. l\<lparr>lesson_status := Completed, lesson_last_error := None,
        file_path := Some (lesson_file topic lesson), word_count := countWords body,
        podcast_file_path := Some (podcast_file topic lesson),
        podcast_word_count := countWords podcast\<rparr>)"
    by (auto simp: lesson_effect_def)
  have same: "lesson_id l = lesson_id lesson \<longleftrightarrow> l = lesson" if "l \<in> set (lessons w)" for l
    using same_id_same_row [OF assms(1) that assms(2)] by blast
  have rows': "lessons w' = map (\<lambda>l. if l = lesson then change lesson else l) (lessons w)"
    unfolding rows by (rule map_cong) (auto simp: same)
  have f: "files w' =
      (podcast_file topic lesson, podcast) # (lesson_file topic lesson, body) # files w"
    using written w by simp
  have rb: "readFile w' (lesson_file topic lesson) = Some body"
    using artifact_paths_differ [of topic lesson] by (simp add: readFile_def f)
  have rp: "readFile w' (podcast_file topic lesson) = Some podcast"
    by (simp add: readFile_def f)
  have new: "lessons w' =
       map (\<lambda>l. if l = lesson
                 then lesson\<lparr>lesson_status := Completed, lesson_last_error := None,
                        file_path := Some (lesson_file topic lesson),
                        word_count := countWords body,
                        podcast_file_path := Some (podcast_file topic lesson),
                        podcast_word_count := countWords podcast\<rparr>
                 else l) (lessons w)"
    unfolding rows' c by (rule refl)
  from f rb rp new show ?thesis
    by (intro exI [of _ body] exI [of _ podcast] conjI)
qed

lemma single_failure:
  assumes "generateSingleLesson svc topic lesson w = (False, w')"
    and "l' \<in> set (lessons w')" and "lesson_id l' = lesson_id lesson"
  shows "lesson_status l' = Failed"
proof -
  obtain change written where eff: "lesson_effect topic lesson False change written"
    and rows: "lessons w' =
      map (\<lambda>l. if lesson_id l = lesson_id lesson then change l else l) (lessons w)"
    using generateSingleLesson_effect [OF assms(1)] by blast
  from eff have st: "lesson_status (change l) = Failed" and id: "lesson_id (change l) = lesson_id l"
    for l
    by (auto simp: lesson_effect_def)
  from assms(2) obtain l where "l \<in> set (lessons w)"
    and l': "l' = (if lesson_id l = lesson_id lesson then change l else l)"
    unfolding rows by auto
  with assms(3) st id show ?thesis
    by (cases "lesson_id l = lesson_id lesson") simp_all
qed

text \<open>
  Claim C7. In every reachable state a lesson in status \<^verbatim>\<open>completed\<close> has both paths
  set, and both files exist. A run of \<^verbatim>\<open>generateSingleLesson\<close> from a reachable state
  that succeeds has written the body file and then the podcast file, and the row it leaves
  is completed and carries the two paths and the word counts of the two texts written; a
  run that fails leaves the row failed.
\<close>

theorem completed_lesson_invariant:
  assumes "reachable w"
  shows
    "(\<forall>l \<in> set (lessons w). lesson_status l = Completed \<longrightarrow>
        (\<exists>p q. file_path l = Some p \<and> podcast_file_path l = Some q \<and>
           readFile w p \<noteq> None \<and> readFile w q \<noteq> None)) \<and>
     (\<forall>svc topic lesson w'.
        lesson \<in> set (lessons w) \<and> generateSingleLesson svc topic lesson w = (True, w') \<longrightarrow>
        (\<exists>body podcast.
           files w' =
             (podcast_file topic lesson, podcast) # (lesson_file topic lesson, body) # files w \<and>
           readFile w' (lesson_file topic lesson) = Some body \<and>
           readFile w' (podcast_file topic lesson) = Some podcast \<and>
           lessons w' =
             map (\<lambda>l. if l = lesson
                       then lesson\<lparr>lesson_status := Completed, lesson_last_error := None,
                              file_path := Some (lesson_file topic lesson),
                              word_count := countWords body,
                              podcast_file_path := Some (podcast_file topic lesson),
                              podcast_word_count := countWords podcast\<rparr>
                       else l) (lessons w))) \<and>
     (\<forall>svc topic lesson w'.
        generateSingleLesson svc topic lesson w = (False, w') \<longrightarrow>
        (\<forall>l' \<in> set (lessons w'). lesson_id l' = lesson_id lesson \<longrightarrow> lesson_status l' = Failed))"
    (is "?first \<and> ?second \<and> ?third")
proof -
  have c: "consistent w"
    using assms by (rule reachable_consistent)
  then have d: "distinct (map lesson_id (lessons w))"
    by (simp add: consistent_def)
  have "\<forall>l \<in> set (lessons w). lesson_status l = Completed \<longrightarrow> has_artifacts w l"
    using c by (simp add: consistent_def)
  then have first: ?first
    by (simp add: has_artifacts_def)
  have second: ?second
  proof (intro allI impI, elim conjE)
    fix svc topic lesson w'
    assume "lesson \<in> set (lessons w)"
      and "generateSingleLesson svc topic lesson w = (True, w')"
    with d show "\<exists>body podcast.
         files w' =
           (podcast_file topic lesson, podcast) # (lesson_file topic lesson, body) # files w \<and>
         readFile w' (lesson_file topic lesson) = Some body \<and>
         readFile w' (podcast_file topic lesson) = Some podcast \<and>
         lessons w' =
           map (\<lambda>l. if l = lesson
                     then lesson\<lparr>lesson_status := Completed, lesson_last_error := None,
                            file_path := Some (lesson_file topic lesson),
                            word_count := countWords body,
                            podcast_file_path := Some (podcast_file topic lesson),
                            podcast_word_count := countWords podcast\<rparr>
                     else l) (lessons w)"
      by (rule single_success)
  qed
  have third: ?third
  proof (intro allI impI ballI)
    fix svc topic lesson w' l'
    assume "generateSingleLesson svc topic lesson w = (False, w')"
      and "l' \<in> set (lessons w')" and "lesson_id l' = lesson_id lesson"
    then show "lesson_status l' = Failed"
      by (rule single_failure)
  qed
  from first second third show ?thesis
    by (intro conjI)
qed

lemma reachable_one_done: "reachable one_done"
  unfolding one_done_def by (intro reachable.generate reachable_one_pending)

lemma rows_one_pending: "lessons one_pending = [intro_lesson]"
  by code_simp

theorem completed_lesson_invariant_witness:
  "reachable one_done \<and>
   map lesson_status (lessons one_done) = [Completed] \<and>
   (\<exists>l \<in> set (lessons one_done). \<exists>p q.
      file_path l = Some p \<and> podcast_file_path l = Some q \<and>
      readFile one_done p \<noteq> None \<and> readFile one_done q \<noteq> None) \<and>
   reachable one_pending \<and>
   lessons one_pending = [intro_lesson] \<and>
   fst (generateSingleLesson short_answers example_topic intro_lesson one_pending) = True \<and>
   (\<exists>body podcast.
      readFile (snd (generateSingleLesson short_answers example_topic intro_lesson one_pending))
        (lesson_file example_topic intro_lesson) = Some body \<and>
      readFile (snd (generateSingleLesson short_answers example_topic intro_lesson one_pending))
        (podcast_file example_topic intro_lesson) = Some podcast \<and>
      map word_count
        (lessons (snd (generateSingleLesson short_answers example_topic intro_lesson
                         one_pending))) = [countWords body] \<and>
      map podcast_word_count
        (lessons (snd (generateSingleLesson short_answers example_topic intro_lesson
                         one_pending))) = [countWords podcast])"
proof -
  let ?run = "generateSingleLesson short_answers example_topic intro_lesson one_pending"
  note step = completed_lesson_invariant [OF reachable_one_pending, THEN conjunct2,
      THEN conjunct1, rule_format]
  have st: "map lesson_status (lessons one_done) = [Completed]"
    by code_simp
  then obtain l where l: "lessons one_done = [l]" and "lesson_status l = Completed"
    by (cases "lessons one_done") auto
  with completed_lesson_invariant [OF reachable_one_done]
  have "\<exists>p q. file_path l = Some p \<and> podcast_file_path l = Some q \<and>
      readFile one_done p \<noteq> None \<and> readFile one_done q \<noteq> None"
    by simp
  with l have a: "\<exists>l \<in> set (lessons one_done). \<exists>p q.
      file_path l = Some p \<and> podcast_file_path l = Some q \<and>
      readFile one_done p \<noteq> None \<and> readFile one_done q \<noteq> None"
    by simp
  have ok: "fst ?run = True"
    by code_simp
  have "intro_lesson \<in> set (lessons one_pending) \<and> ?run = (True, snd ?run)"
    using ok rows_one_pending by (cases ?run) simp
  then have "\<exists>body podcast.
      files (snd ?run) =
        (podcast_file example_topic intro_lesson, podcast) #
        (lesson_file example_topic intro_lesson, body) # files one_pending \<and>
      readFile (snd ?run) (lesson_file example_topic intro_lesson) = Some body \<and>
      readFile (snd ?run) (podcast_file example_topic intro_lesson) = Some podcast \<and>
      lessons (snd ?run) =
        map (\<lambda>l. if l = intro_lesson
                  then intro_lesson\<lparr>lesson_status := Completed, lesson_last_error := None,
                         file_path := Some (lesson_file example_topic intro_lesson),
                         word_count := countWords body,
                         podcast_file_path := Some (podcast_file example_topic intro_lesson),
                         podcast_word_count := countWords podcast\<rparr>
                  else l) (lessons one_pending)"
    by (rule step)
  then obtain body podcast where
    rb: "readFile (snd ?run) (lesson_file example_topic intro_lesson) = Some body"
    and rp: "readFile (snd ?run) (podcast_file example_topic intro_lesson) = Some podcast"
    and new: "lessons (snd ?run) =
       map (\<lambda>l. if l = intro_lesson
                 then intro_lesson\<lparr>lesson_status := Completed, lesson_last_error := None,
                        file_path := Some (lesson_file example_topic intro_lesson),
                        word_count := countWords body,
                        podcast_file_path := Some (podcast_file example_topic intro_lesson),
                        podcast_word_count := countWords podcast\<rparr>
                 else l) (lessons one_pending)"
    by (elim exE conjE)
  have wc: "map word_count (lessons (snd ?run)) = [countWords body]"
    and pc: "map podcast_word_count (lessons (snd ?run)) = [countWords podcast]"
    unfolding new rows_one_pending by simp_all
  from rb rp wc pc have b: "\<exists>body podcast.
      readFile (snd ?run) (lesson_file example_topic intro_lesson) = Some body \<and>
      readFile (snd ?run) (podcast_file example_topic intro_lesson) = Some podcast \<and>
      map word_count (lessons (snd ?run)) = [countWords body] \<and>
      map podcast_word_count (lessons (snd ?run)) = [countWords podcast]"
    by (intro exI [of _ body] exI [of _ podcast] conjI)
  from reachable_one_done st a reachable_one_pending rows_one_pending ok b show ?thesis
    by (intro conjI)
qed
end
